theory Spec2Isabelle
  imports Main "HOL-Library.Word" "HOL-Library.Multiset"
begin

section \<open>The LRU map of \<^verbatim>\<open>lru_map.h\<close>\<close>

text \<open>
  \<^verbatim>\<open>LruMap\<close> keeps a \<^verbatim>\<open>std::list\<close> of entries, the most recent one at the front,
  and a \<^verbatim>\<open>std::unordered_map\<close> from each key to the list iterator of its entry.
  A list iterator stays valid while other nodes are spliced, inserted or erased, so a
  node is modelled with its address: the list is a list of (address, entry) pairs in
  list order and the map holds addresses.

  The policies are template parameters. \<^verbatim>\<open>TimestampingPolicy\<close> and
  \<^verbatim>\<open>HitCountingPolicy\<close> decide which members an entry carries and which hooks
  write them: they are a parameter \<open>P\<close> of every operation. Under
  \<^verbatim>\<open>TimestampNone\<close> and \<^verbatim>\<open>HitCountDisabled\<close> the entry has no such member; the
  model keeps the field at its initial 0, where no hook writes it and nothing reads it.
  The hooks of \<^verbatim>\<open>LoggingPolicy\<close> write to the log sink only and
  \<^verbatim>\<open>LockingPolicy\<close> holds the mutex for the duration of a call; neither reads
  or writes a member of the map, and both are left out.

  The microsecond timestamps are \<^verbatim>\<open>int64_t\<close> values that are only stored and
  compared: they are 64-bit words read as signed. The counters are \<^verbatim>\<open>int64_t\<close>
  values that only grow by one per call; they are unbounded integers here (2^63 calls
  are out of reach of a run). \<^verbatim>\<open>MicrosecondsSinceEpoch()\<close> is read at most once in
  a call: its value is the argument \<open>now\<close> of the operation.

  A failed \<^verbatim>\<open>CHECK\<close> or \<^verbatim>\<open>DCHECK\<close> aborts, and a list operation on an iterator
  that is not in the list is undefined: both are error values of the model.
\<close>

type_synonym int64_t = "64 word"

datatype error = CheckFailure | InvalidIterator

datatype TimestampingPolicy = TimestampNone | TimestampAll

datatype HitCountingPolicy = HitCountDisabled | HitCountEnabled

record policies =
  timestamping :: TimestampingPolicy
  hit_counting :: HitCountingPolicy

record LruMapStats =
  num_insert :: int
  num_overflow :: int
  num_find :: int
  num_find_ok :: int
  num_erase :: int
  num_clear :: int

record ('k, 'v) KeyValueT =
  key :: 'k
  val :: 'v
  access_time_usecs :: int64_t
  modify_time_usecs :: int64_t
  hit_count :: int

type_synonym ItemListIter = nat

type_synonym ('k, 'v) ItemList = "(ItemListIter \<times> ('k, 'v) KeyValueT) list"

type_synonym 'k ItemMap = "('k \<times> ItemListIter) list"

record ('k, 'v) LruMap =
  capacity :: int
  lru_stats :: LruMapStats
  lru_list :: "('k, 'v) ItemList"
  lru_key_map :: "'k ItemMap"

subsection \<open>The entry and its policy hooks\<close>

definition KeyValueEntry :: "'k \<Rightarrow> 'v \<Rightarrow> ('k, 'v) KeyValueT" where
  "KeyValueEntry k v =
     \<lparr>key = k, val = v, access_time_usecs = 0, modify_time_usecs = 0, hit_count = 0\<rparr>"

definition UpdateAccessTimestamp ::
  "policies \<Rightarrow> int64_t \<Rightarrow> ('k, 'v) KeyValueT \<Rightarrow> ('k, 'v) KeyValueT" where
  "UpdateAccessTimestamp P now kv_entry =
     (case timestamping P of
        TimestampNone \<Rightarrow> kv_entry
      | TimestampAll \<Rightarrow> kv_entry\<lparr>access_time_usecs := now\<rparr>)"

definition UpdateModifyTimestamp ::
  "policies \<Rightarrow> int64_t \<Rightarrow> ('k, 'v) KeyValueT \<Rightarrow> ('k, 'v) KeyValueT" where
  "UpdateModifyTimestamp P now kv_entry =
     (case timestamping P of
        TimestampNone \<Rightarrow> kv_entry
      | TimestampAll \<Rightarrow> kv_entry\<lparr>modify_time_usecs := now\<rparr>)"

definition IncrementHitCount ::
  "policies \<Rightarrow> ('k, 'v) KeyValueT \<Rightarrow> ('k, 'v) KeyValueT" where
  "IncrementHitCount P kv_entry =
     (case hit_counting P of
        HitCountDisabled \<Rightarrow> kv_entry
      | HitCountEnabled \<Rightarrow> kv_entry\<lparr>hit_count := hit_count kv_entry + 1\<rparr>)"

text \<open>
  \<^verbatim>\<open>TimestampAll::Valid\<close>: the loop over the list, \<open>prev\<close> being
  \<^verbatim>\<open>prev_usecs\<close>, which starts at the largest \<^verbatim>\<open>int64_t\<close>.
\<close>

definition current_recent_usecs :: "('k, 'v) KeyValueT \<Rightarrow> int" where
  "current_recent_usecs kv_entry =
     max (sint (access_time_usecs kv_entry)) (sint (modify_time_usecs kv_entry))"

fun Valid_loop :: "int \<Rightarrow> ('k, 'v) ItemList \<Rightarrow> bool" where
  "Valid_loop prev [] = True"
| "Valid_loop prev (n # ns) =
     (if current_recent_usecs (snd n) > prev then False
      else Valid_loop (current_recent_usecs (snd n)) ns)"

definition TimestampAll_Valid :: "('k, 'v) ItemList \<Rightarrow> bool" where
  "TimestampAll_Valid l = Valid_loop (2 ^ 63 - 1) l"

subsection \<open>The list and the map\<close>

text \<open>
  A new list node gets an address that no node of the list has. \<open>unlink\<close> takes the
  node at an iterator out of the list; there is none when the iterator is not in the list.
\<close>

definition new_node :: "('k, 'v) ItemList \<Rightarrow> ItemListIter" where
  "new_node l = Suc (foldr max (map fst l) 0)"

definition push_front :: "('k, 'v) KeyValueT \<Rightarrow> ('k, 'v) ItemList \<Rightarrow> ('k, 'v) ItemList" where
  "push_front kv_entry l = (new_node l, kv_entry) # l"

fun unlink ::
  "ItemListIter \<Rightarrow> ('k, 'v) ItemList \<Rightarrow>
   ((ItemListIter \<times> ('k, 'v) KeyValueT) \<times> ('k, 'v) ItemList) option" where
  "unlink it [] = None"
| "unlink it (n # ns) =
     (if fst n = it then Some (n, ns)
      else (case unlink it ns of None \<Rightarrow> None | Some (x, r) \<Rightarrow> Some (x, n # r)))"

definition splice_begin :: "ItemListIter \<Rightarrow> ('k, 'v) ItemList \<Rightarrow> error + ('k, 'v) ItemList" where
  "splice_begin it l =
     (case unlink it l of None \<Rightarrow> Inl InvalidIterator | Some (n, r) \<Rightarrow> Inr (n # r))"

definition list_erase :: "ItemListIter \<Rightarrow> ('k, 'v) ItemList \<Rightarrow> error + ('k, 'v) ItemList" where
  "list_erase it l =
     (case unlink it l of None \<Rightarrow> Inl InvalidIterator | Some (n, r) \<Rightarrow> Inr r)"

definition map_insert :: "'k \<Rightarrow> ItemListIter \<Rightarrow> 'k ItemMap \<Rightarrow> 'k ItemMap \<times> bool" where
  "map_insert k it km =
     (case map_of km k of None \<Rightarrow> ((k, it) # km, True) | Some _ \<Rightarrow> (km, False))"

definition map_erase :: "'k \<Rightarrow> 'k ItemMap \<Rightarrow> 'k ItemMap" where
  "map_erase k km = filter (\<lambda>kv. fst kv \<noteq> k) km"

subsection \<open>The operations\<close>

definition LruMap_ctor :: "int \<Rightarrow> error + ('k, 'v) LruMap" where
  "LruMap_ctor cap =
     (if cap \<ge> 1
      then Inr \<lparr>capacity = cap,
                lru_stats = \<lparr>num_insert = 0, num_overflow = 0, num_find = 0,
                             num_find_ok = 0, num_erase = 0, num_clear = 0\<rparr>,
                lru_list = [], lru_key_map = []\<rparr>
      else Inl CheckFailure)"

definition SizePrivate :: "('k, 'v) LruMap \<Rightarrow> error + int" where
  "SizePrivate m =
     (if length (lru_list m) = length (lru_key_map m)
      then Inr (int (length (lru_list m)))
      else Inl CheckFailure)"

text \<open>
  \<^verbatim>\<open>Insert\<close>, first half (the \<^verbatim>\<open>if\<close> on \<^verbatim>\<open>map_it\<close> and the \<^verbatim>\<open>DCHECK\<close> after
  it): the entry of the key is at the front of the list with the new value.
\<close>

definition Insert_front ::
  "'k \<Rightarrow> 'v \<Rightarrow> ('k, 'v) LruMap \<Rightarrow> error + ('k, 'v) LruMap" where
  "Insert_front k v m =
     (case map_of (lru_key_map m) k of
        Some it \<Rightarrow>
          (case splice_begin it (lru_list m) of
             Inl e \<Rightarrow> Inl e
           | Inr [] \<Rightarrow> Inl InvalidIterator
           | Inr (n # ns) \<Rightarrow>
               if key (snd n) = k
               then Inr (m\<lparr>lru_list := (fst n, (snd n)\<lparr>val := v\<rparr>) # ns\<rparr>)
               else Inl CheckFailure)
      | None \<Rightarrow>
          (case push_front (KeyValueEntry k v) (lru_list m) of
             [] \<Rightarrow> Inl InvalidIterator
           | n # ns \<Rightarrow>
               (case map_insert k (fst n) (lru_key_map m) of
                  (km, result_second) \<Rightarrow>
                    if \<not> result_second then Inl CheckFailure
                    else if key (snd n) = k
                    then Inr (m\<lparr>lru_list := n # ns, lru_key_map := km\<rparr>)
                    else Inl CheckFailure)))"

text \<open>
  \<^verbatim>\<open>Insert\<close>, second half: when the size exceeds the capacity, the last node is
  counted as an overflow, its key is erased from the map and the node is popped.
\<close>

definition Insert_overflow :: "('k, 'v) LruMap \<Rightarrow> error + ('k, 'v) LruMap" where
  "Insert_overflow m =
     (case SizePrivate m of
        Inl e \<Rightarrow> Inl e
      | Inr sz \<Rightarrow>
          if sz > capacity m
          then (if lru_list m = [] then Inl InvalidIterator
                else Inr (m\<lparr>lru_stats := (lru_stats m)\<lparr>num_overflow := num_overflow (lru_stats m) + 1\<rparr>,
                            lru_key_map := map_erase (key (snd (last (lru_list m)))) (lru_key_map m),
                            lru_list := butlast (lru_list m)\<rparr>))
          else Inr m)"

definition Insert ::
  "policies \<Rightarrow> int64_t \<Rightarrow> 'k \<Rightarrow> 'v \<Rightarrow> ('k, 'v) LruMap \<Rightarrow> error + ('k, 'v) LruMap" where
  "Insert P now k v m =
     (case Insert_front k v m of
        Inl e \<Rightarrow> Inl e
      | Inr m1 \<Rightarrow>
          (case lru_list m1 of
             [] \<Rightarrow> Inl InvalidIterator
           | n # ns \<Rightarrow>
               (case Insert_overflow
                       (m1\<lparr>lru_list := (fst n, UpdateModifyTimestamp P now (snd n)) # ns\<rparr>) of
                  Inl e \<Rightarrow> Inl e
                | Inr m2 \<Rightarrow>
                    Inr (m2\<lparr>lru_stats := (lru_stats m2)\<lparr>num_insert := num_insert (lru_stats m2) + 1\<rparr>\<rparr>))))"

definition Find ::
  "policies \<Rightarrow> int64_t \<Rightarrow> 'k \<Rightarrow> ('k, 'v) LruMap \<Rightarrow> error + ('v option \<times> ('k, 'v) LruMap)" where
  "Find P now k m =
     (let m1 = m\<lparr>lru_stats := (lru_stats m)\<lparr>num_find := num_find (lru_stats m) + 1\<rparr>\<rparr> in
      case map_of (lru_key_map m1) k of
        None \<Rightarrow> Inr (None, m1)
      | Some it \<Rightarrow>
          (case splice_begin it (lru_list m1) of
             Inl e \<Rightarrow> Inl e
           | Inr [] \<Rightarrow> Inl InvalidIterator
           | Inr (n # ns) \<Rightarrow>
               if key (snd n) \<noteq> k then Inl CheckFailure
               else
                 let found_kv_entry = UpdateAccessTimestamp P now (IncrementHitCount P (snd n)) in
                 Inr (Some (val found_kv_entry),
                      m1\<lparr>lru_stats := (lru_stats m1)\<lparr>num_find_ok := num_find_ok (lru_stats m1) + 1\<rparr>,
                         lru_list := (fst n, found_kv_entry) # ns\<rparr>)))"

definition Exists :: "'k \<Rightarrow> ('k, 'v) LruMap \<Rightarrow> bool" where
  "Exists k m = (map_of (lru_key_map m) k \<noteq> None)"

definition Erase :: "'k \<Rightarrow> ('k, 'v) LruMap \<Rightarrow> error + ('k, 'v) LruMap" where
  "Erase k m =
     (let m1 = m\<lparr>lru_stats := (lru_stats m)\<lparr>num_erase := num_erase (lru_stats m) + 1\<rparr>\<rparr> in
      case map_of (lru_key_map m1) k of
        None \<Rightarrow> Inr m1
      | Some it \<Rightarrow>
          (case list_erase it (lru_list m1) of
             Inl e \<Rightarrow> Inl e
           | Inr l \<Rightarrow> Inr (m1\<lparr>lru_list := l, lru_key_map := map_erase k (lru_key_map m1)\<rparr>)))"

definition Clear :: "('k, 'v) LruMap \<Rightarrow> ('k, 'v) LruMap" where
  "Clear m =
     m\<lparr>lru_list := [], lru_key_map := [],
       lru_stats := (lru_stats m)\<lparr>num_clear := num_clear (lru_stats m) + 1\<rparr>\<rparr>"

definition Capacity :: "('k, 'v) LruMap \<Rightarrow> int" where
  "Capacity m = capacity m"

definition Size :: "('k, 'v) LruMap \<Rightarrow> error + int" where
  "Size m = SizePrivate m"

definition Valid :: "policies \<Rightarrow> ('k, 'v) LruMap \<Rightarrow> bool" where
  "Valid P m =
     (case timestamping P of
        TimestampNone \<Rightarrow> True
      | TimestampAll \<Rightarrow> TimestampAll_Valid (lru_list m))"

subsection \<open>Sequences of calls\<close>

text \<open>
  A call of a public operation, with the clock reading of that call. \<open>run\<close> makes the
  calls in order on a map and stops at the first error.
\<close>

datatype ('k, 'v) call =
  CallInsert 'k 'v | CallFind 'k | CallExists 'k | CallErase 'k | CallClear
  | CallSize | CallValid

fun step ::
  "policies \<Rightarrow> int64_t \<times> ('k, 'v) call \<Rightarrow> ('k, 'v) LruMap \<Rightarrow> error + ('k, 'v) LruMap" where
  "step P (now, CallInsert k v) m = Insert P now k v m"
| "step P (now, CallFind k) m =
     (case Find P now k m of Inl e \<Rightarrow> Inl e | Inr (r, m') \<Rightarrow> Inr m')"
| "step P (now, CallExists k) m = Inr m"
| "step P (now, CallErase k) m = Erase k m"
| "step P (now, CallClear) m = Inr (Clear m)"
| "step P (now, CallSize) m = (case Size m of Inl e \<Rightarrow> Inl e | Inr sz \<Rightarrow> Inr m)"
| "step P (now, CallValid) m = Inr m"

fun run ::
  "policies \<Rightarrow> (int64_t \<times> ('k, 'v) call) list \<Rightarrow> ('k, 'v) LruMap \<Rightarrow> error + ('k, 'v) LruMap" where
  "run P [] m = Inr m"
| "run P (c # cs) m = (case step P c m of Inl e \<Rightarrow> Inl e | Inr m' \<Rightarrow> run P cs m')"

subsection \<open>What a state shows\<close>

text \<open>
  \<open>construct_and_run\<close> constructs a map and makes the calls on it. \<open>keys_of\<close> is the
  sequence of keys from the front of the list to its back, \<open>index_of\<close> the (key, iterator)
  pairs that the nodes of the list stand for. \<open>lru_inv\<close> is the invariant of the two
  members: the capacity bounds the list, no two nodes share an address, no two map
  elements share a key, and the map holds exactly the pairs of the list.
\<close>

definition construct_and_run ::
  "policies \<Rightarrow> int \<Rightarrow> (int64_t \<times> ('k, 'v) call) list \<Rightarrow> error + ('k, 'v) LruMap" where
  "construct_and_run P cap calls =
     (case LruMap_ctor cap of Inl e \<Rightarrow> Inl e | Inr m \<Rightarrow> run P calls m)"

definition index_of :: "('k, 'v) ItemList \<Rightarrow> 'k ItemMap" where
  "index_of l = map (\<lambda>n. (key (snd n), fst n)) l"

definition keys_of :: "('k, 'v) ItemList \<Rightarrow> 'k list" where
  "keys_of l = map (\<lambda>n. key (snd n)) l"

definition lru_inv :: "('k, 'v) LruMap \<Rightarrow> bool" where
  "lru_inv m \<longleftrightarrow>
     1 \<le> capacity m \<and> int (length (lru_list m)) \<le> capacity m \<and>
     distinct (map fst (lru_list m)) \<and> distinct (map fst (lru_key_map m)) \<and>
     mset (index_of (lru_list m)) = mset (lru_key_map m)"

text \<open>
  \<open>counters_le s s'\<close>: no counter of \<open>s'\<close> is below its value in \<open>s\<close>. \<open>counters_ok\<close>: the
  bounds between the counters of finds and of inserts.
\<close>

definition counters_le :: "LruMapStats \<Rightarrow> LruMapStats \<Rightarrow> bool" where
  "counters_le s s' \<longleftrightarrow>
     num_insert s \<le> num_insert s' \<and> num_overflow s \<le> num_overflow s' \<and>
     num_find s \<le> num_find s' \<and> num_find_ok s \<le> num_find_ok s' \<and>
     num_erase s \<le> num_erase s' \<and> num_clear s \<le> num_clear s'"

definition counters_ok :: "LruMapStats \<Rightarrow> bool" where
  "counters_ok s \<longleftrightarrow>
     0 \<le> num_find_ok s \<and> num_find_ok s \<le> num_find s \<and>
     0 \<le> num_overflow s \<and> num_overflow s \<le> num_insert s"

text \<open>
  A sequence of inserts is given by the clock reading, the key and the value of each:
  \<open>insert_calls\<close> are the calls, \<open>inserted_keys\<close> the keys in the order of insertion.
\<close>

definition insert_calls :: "(int64_t \<times> 'k \<times> 'v) list \<Rightarrow> (int64_t \<times> ('k, 'v) call) list" where
  "insert_calls ins = map (\<lambda>(t, k, v). (t, CallInsert k v)) ins"

definition inserted_keys :: "(int64_t \<times> 'k \<times> 'v) list \<Rightarrow> 'k list" where
  "inserted_keys ins = map (\<lambda>(t, k, v). k) ins"

text \<open>
  \<open>clock_readings\<close> are the values of \<^verbatim>\<open>MicrosecondsSinceEpoch()\<close> over a sequence of
  calls, as signed integers. \<open>Valid_after\<close> is what \<^verbatim>\<open>Valid()\<close> returns after the calls on
  a new map. \<open>timestamps_ordered T l\<close>: from the front of \<open>l\<close> to its back the larger of
  the two timestamps of an entry never increases, and none is above \<open>T\<close>.
\<close>

definition clock_readings :: "(int64_t \<times> ('k, 'v) call) list \<Rightarrow> int list" where
  "clock_readings calls = map (\<lambda>c. sint (fst c)) calls"

definition Valid_after ::
  "policies \<Rightarrow> int \<Rightarrow> (int64_t \<times> ('k, 'v) call) list \<Rightarrow> error + bool" where
  "Valid_after P cap calls =
     (case (construct_and_run P cap calls :: error + ('k, 'v) LruMap) of
        Inl e \<Rightarrow> Inl e | Inr m \<Rightarrow> Inr (Valid P m))"

definition timestamps_ordered :: "int \<Rightarrow> ('k, 'v) ItemList \<Rightarrow> bool" where
  "timestamps_ordered T l \<longleftrightarrow>
     sorted_wrt (\<lambda>a b. b \<le> a) (map (\<lambda>n. current_recent_usecs (snd n)) l) \<and>
     (\<forall>n \<in> set l. current_recent_usecs (snd n) \<le> T)"

section \<open>The list, the map and the invariant\<close>

lemma foldr_max_ge: "x \<in> set xs \<Longrightarrow> x \<le> foldr max xs (0::nat)"
  by (induction xs) auto

lemma new_node_fresh: "new_node l \<notin> fst ` set l"
proof
  assume "new_node l \<in> fst ` set l"
  then have "new_node l \<in> set (map fst l)" by simp
  then have "new_node l \<le> foldr max (map fst l) 0" by (rule foldr_max_ge)
  then show False by (simp add: new_node_def)
qed

lemma unlink_Some:
  "unlink it l = Some (n, r) \<Longrightarrow> fst n = it \<and> mset l = add_mset n (mset r)"
  by (induction l arbitrary: r) (auto split: if_splits option.splits)

lemma unlink_None: "unlink it l = None \<Longrightarrow> it \<notin> fst ` set l"
  by (induction l) (auto split: if_splits option.splits)

lemma unlink_in: "it \<in> fst ` set l \<Longrightarrow> \<exists>n r. unlink it l = Some (n, r)"
  using unlink_None [of it l] by (cases "unlink it l") auto

lemma unlink_node:
  "distinct (map fst l) \<Longrightarrow> (it, e) \<in> set l \<Longrightarrow> \<exists>r. unlink it l = Some ((it, e), r)"
proof (induction l)
  case Nil then show ?case by simp
next
  case (Cons x xs)
  show ?case
  proof (cases "fst x = it")
    case True
    with Cons.prems have "x = (it, e)" by (auto simp: image_iff) 
    with True show ?thesis by simp
  next
    case False
    with Cons show ?thesis by auto
  qed
qed

lemma unlink_keys:
  "distinct (keys_of l) \<Longrightarrow> unlink it l = Some (n, r) \<Longrightarrow>
   keys_of r = remove1 (key (snd n)) (keys_of l)"
proof (induction l arbitrary: r)
  case Nil then show ?case by simp
next
  case (Cons x xs)
  show ?case
  proof (cases "fst x = it")
    case True
    with Cons.prems show ?thesis by (simp add: keys_of_def)
  next
    case False
    with Cons.prems obtain r' where u: "unlink it xs = Some (n, r')" and r: "r = x # r'"
      by (auto split: option.splits)
    from unlink_Some[OF u] have "n \<in># mset xs" by simp
    then have "n \<in> set xs" by simp
    then have "key (snd n) \<in> set (keys_of xs)" by (auto simp: keys_of_def)
    moreover from Cons.prems(1) have "key (snd x) \<notin> set (keys_of xs)"
      by (simp add: keys_of_def)
    ultimately have ne: "key (snd x) \<noteq> key (snd n)" by metis
    from Cons.prems(1) have "distinct (keys_of xs)" by (simp add: keys_of_def)
    from Cons.IH[OF this u] ne r show ?thesis by (simp add: keys_of_def)
  qed
qed

lemma unlink_sorted_wrt:
  "unlink it l = Some (n, r) \<Longrightarrow> sorted_wrt R (map f l) \<Longrightarrow> sorted_wrt R (map f r)"
proof (induction l arbitrary: r)
  case Nil then show ?case by simp
next
  case (Cons x xs)
  show ?case
  proof (cases "fst x = it")
    case True with Cons.prems show ?thesis by simp
  next
    case False
    with Cons.prems obtain r' where u: "unlink it xs = Some (n, r')" and r: "r = x # r'"
      by (auto split: option.splits)
    from unlink_Some[OF u] have "set_mset (mset xs) = insert n (set_mset (mset r'))" by simp
    then have "set r' \<subseteq> set xs" by auto
    with Cons.prems(2) Cons.IH[OF u] r show ?thesis by auto
  qed
qed

lemma map_erase_mset:
  assumes "distinct (map fst km)" "mset km = add_mset (k, it) M"
  shows "mset (map_erase k km) = M"
proof -
  have "mset (map fst km) = add_mset k (image_mset fst M)"
    using assms(2) by (metis image_mset_add_mset fst_conv mset_map)
  then have "count (mset (map fst km)) k = Suc (count (image_mset fst M) k)" by simp
  moreover from assms(1) have "count (mset (map fst km)) k \<le> 1"
    by (simp add: distinct_count_atmost_1 del: mset_map)
  ultimately have "count (image_mset fst M) k = 0" by linarith
  then have "k \<notin># image_mset fst M" by (simp add: count_eq_zero_iff del: set_image_mset)
  then have "filter_mset (\<lambda>kv. fst kv \<noteq> k) M = M"
    by (auto simp: filter_mset_eq_conv)
  then show ?thesis
    using assms(2) by (simp add: map_erase_def)
qed

subsection \<open>What the invariant gives\<close>

lemma index_of_simps [simp]:
  "index_of [] = []" "index_of (n # l) = (key (snd n), fst n) # index_of l"
  "index_of (l @ l') = index_of l @ index_of l'"
  "map fst (index_of l) = keys_of l" "map snd (index_of l) = map fst l"
  "length (index_of l) = length l"
  by (simp_all add: index_of_def keys_of_def comp_def)

lemma keys_of_simps [simp]:
  "keys_of [] = []" "keys_of (n # l) = key (snd n) # keys_of l"
  "keys_of (l @ l') = keys_of l @ keys_of l'" "length (keys_of l) = length l"
  by (simp_all add: keys_of_def)

lemma inv_length: "lru_inv m \<Longrightarrow> length (lru_list m) = length (lru_key_map m)"
proof -
  assume "lru_inv m"
  then have "mset (index_of (lru_list m)) = mset (lru_key_map m)" by (simp add: lru_inv_def)
  then have "length (index_of (lru_list m)) = length (lru_key_map m)" by (rule mset_eq_length)
  then show ?thesis by simp
qed

lemma inv_set: "lru_inv m \<Longrightarrow> set (index_of (lru_list m)) = set (lru_key_map m)"
  unfolding lru_inv_def by (metis mset_eq_setD)

lemma inv_keys_mset: "lru_inv m \<Longrightarrow> mset (keys_of (lru_list m)) = mset (map fst (lru_key_map m))"
proof -
  assume "lru_inv m"
  then have "mset (index_of (lru_list m)) = mset (lru_key_map m)" by (simp add: lru_inv_def)
  then have "image_mset fst (mset (index_of (lru_list m))) = image_mset fst (mset (lru_key_map m))"
    by simp
  then show ?thesis by (simp flip: mset_map)
qed

lemma inv_keys_distinct: "lru_inv m \<Longrightarrow> distinct (keys_of (lru_list m))"
proof -
  assume i: "lru_inv m"
  then have "distinct (map fst (lru_key_map m))" by (simp add: lru_inv_def)
  with inv_keys_mset[OF i] show ?thesis by (metis mset_eq_imp_distinct_iff)
qed

lemma inv_keys_set: "lru_inv m \<Longrightarrow> set (keys_of (lru_list m)) = fst ` set (lru_key_map m)"
proof -
  assume i: "lru_inv m"
  from inv_keys_mset[OF i] have "set (keys_of (lru_list m)) = set (map fst (lru_key_map m))"
    by (rule mset_eq_setD)
  then show ?thesis by simp
qed

lemma inv_lookup:
  assumes "lru_inv m" "map_of (lru_key_map m) k = Some it"
  shows "\<exists>e. (it, e) \<in> set (lru_list m) \<and> key e = k"
proof -
  from assms(2) have "(k, it) \<in> set (lru_key_map m)" by (rule map_of_SomeD)
  with inv_set[OF assms(1)] have "(k, it) \<in> set (index_of (lru_list m))" by simp
  then show ?thesis by (auto simp: index_of_def)
qed

lemma inv_entry:
  assumes "lru_inv m" "(it, e) \<in> set (lru_list m)"
  shows "map_of (lru_key_map m) (key e) = Some it"
proof -
  from assms(2) have "(key e, it) \<in> set (index_of (lru_list m))" by (force simp: index_of_def)
  with inv_set[OF assms(1)] have "(key e, it) \<in> set (lru_key_map m)" by simp
  moreover from assms(1) have "distinct (map fst (lru_key_map m))" by (simp add: lru_inv_def)
  ultimately show ?thesis by simp
qed

lemma inv_absent:
  assumes "lru_inv m" "map_of (lru_key_map m) k = None"
  shows "k \<notin> set (keys_of (lru_list m))"
  using assms inv_keys_set[OF assms(1)] by (simp add: map_of_eq_None_iff)

lemma inv_unlink:
  assumes "lru_inv m" "map_of (lru_key_map m) k = Some it"
  shows "\<exists>e r. unlink it (lru_list m) = Some ((it, e), r) \<and> key e = k"
proof -
  from inv_lookup[OF assms] obtain e where e: "(it, e) \<in> set (lru_list m)" "key e = k" by blast
  from assms(1) have "distinct (map fst (lru_list m))" by (simp add: lru_inv_def)
  from unlink_node[OF this e(1)] e(2) show ?thesis by blast
qed

subsection \<open>The operations on a state that satisfies the invariant\<close>

lemma unlink_length: "unlink it l = Some (n, r) \<Longrightarrow> length l = Suc (length r)"
  by (drule unlink_Some) (metis size_mset size_add_mset)

lemma Insert_front_hit:
  assumes "map_of (lru_key_map m) k = Some it" "unlink it (lru_list m) = Some ((it, e), r)"
    "key e = k"
  shows "Insert_front k v m = Inr (m\<lparr>lru_list := (it, e\<lparr>val := v\<rparr>) # r\<rparr>)"
  using assms by (simp add: Insert_front_def splice_begin_def)

lemma Insert_front_miss:
  assumes "map_of (lru_key_map m) k = None"
  shows "Insert_front k v m =
     Inr (m\<lparr>lru_list := (new_node (lru_list m), KeyValueEntry k v) # lru_list m,
            lru_key_map := (k, new_node (lru_list m)) # lru_key_map m\<rparr>)"
  using assms by (simp add: Insert_front_def push_front_def map_insert_def KeyValueEntry_def)

lemma Insert_hit:
  assumes "lru_inv m" "map_of (lru_key_map m) k = Some it"
    "unlink it (lru_list m) = Some ((it, e), r)" "key e = k"
  shows "Insert P now k v m =
     Inr (m\<lparr>lru_list := (it, UpdateModifyTimestamp P now (e\<lparr>val := v\<rparr>)) # r,
            lru_stats := (lru_stats m)\<lparr>num_insert := num_insert (lru_stats m) + 1\<rparr>\<rparr>)"
proof -
  from assms(1) have "int (length (lru_list m)) \<le> capacity m" by (simp add: lru_inv_def)
  moreover from unlink_length[OF assms(3)] have "length (lru_list m) = Suc (length r)" .
  moreover from inv_length[OF assms(1)] have "length (lru_list m) = length (lru_key_map m)" .
  ultimately show ?thesis
    by (simp add: Insert_def Insert_front_hit[OF assms(2,3,4)] Insert_overflow_def SizePrivate_def)
qed

lemma Insert_miss_fits:
  assumes "lru_inv m" "map_of (lru_key_map m) k = None"
    "int (length (lru_list m)) < capacity m"
  shows "Insert P now k v m =
     Inr (m\<lparr>lru_list := (new_node (lru_list m), UpdateModifyTimestamp P now (KeyValueEntry k v))
                           # lru_list m,
            lru_key_map := (k, new_node (lru_list m)) # lru_key_map m,
            lru_stats := (lru_stats m)\<lparr>num_insert := num_insert (lru_stats m) + 1\<rparr>\<rparr>)"
  using assms(3) inv_length[OF assms(1)]
  by (simp add: Insert_def Insert_front_miss[OF assms(2)] Insert_overflow_def SizePrivate_def)

lemma Insert_miss_overflow:
  assumes "lru_inv m" "map_of (lru_key_map m) k = None"
    "int (length (lru_list m)) = capacity m"
  shows "Insert P now k v m =
     Inr (m\<lparr>lru_list := (new_node (lru_list m), UpdateModifyTimestamp P now (KeyValueEntry k v))
                           # butlast (lru_list m),
            lru_key_map := (k, new_node (lru_list m))
                           # map_erase (key (snd (last (lru_list m)))) (lru_key_map m),
            lru_stats := (lru_stats m)\<lparr>num_overflow := num_overflow (lru_stats m) + 1,
                                       num_insert := num_insert (lru_stats m) + 1\<rparr>\<rparr>)"
proof -
  from assms(1,3) have ne: "lru_list m \<noteq> []" by (auto simp: lru_inv_def)
  then have "last (lru_list m) \<in> set (lru_list m)" by simp
  then have "key (snd (last (lru_list m))) \<in> set (keys_of (lru_list m))"
    by (auto simp: keys_of_def)
  with inv_absent[OF assms(1,2)] have "key (snd (last (lru_list m))) \<noteq> k" by auto
  with ne assms(3) inv_length[OF assms(1)] show ?thesis
    by (simp add: Insert_def Insert_front_miss[OF assms(2)] Insert_overflow_def SizePrivate_def
        map_erase_def)
qed

lemma hook_simps [simp]:
  "key (UpdateAccessTimestamp P now e) = key e" "val (UpdateAccessTimestamp P now e) = val e"
  "key (UpdateModifyTimestamp P now e) = key e" "val (UpdateModifyTimestamp P now e) = val e"
  "key (IncrementHitCount P e) = key e" "val (IncrementHitCount P e) = val e"
  "key (KeyValueEntry k v) = k" "val (KeyValueEntry k v) = v"
  by (simp_all add: UpdateAccessTimestamp_def UpdateModifyTimestamp_def IncrementHitCount_def
      KeyValueEntry_def split: TimestampingPolicy.splits HitCountingPolicy.splits)

lemma Find_miss:
  assumes "map_of (lru_key_map m) k = None"
  shows "Find P now k m =
     Inr (None, m\<lparr>lru_stats := (lru_stats m)\<lparr>num_find := num_find (lru_stats m) + 1\<rparr>\<rparr>)"
  using assms by (simp add: Find_def)

lemma Find_hit:
  assumes "map_of (lru_key_map m) k = Some it" "unlink it (lru_list m) = Some ((it, e), r)"
    "key e = k"
  shows "Find P now k m =
     Inr (Some (val e),
          m\<lparr>lru_list := (it, UpdateAccessTimestamp P now (IncrementHitCount P e)) # r,
            lru_stats := (lru_stats m)\<lparr>num_find := num_find (lru_stats m) + 1,
                                       num_find_ok := num_find_ok (lru_stats m) + 1\<rparr>\<rparr>)"
  using assms by (simp add: Find_def splice_begin_def Let_def)

lemma Erase_miss:
  assumes "map_of (lru_key_map m) k = None"
  shows "Erase k m = Inr (m\<lparr>lru_stats := (lru_stats m)\<lparr>num_erase := num_erase (lru_stats m) + 1\<rparr>\<rparr>)"
  using assms by (simp add: Erase_def)

lemma Erase_hit:
  assumes "map_of (lru_key_map m) k = Some it" "unlink it (lru_list m) = Some ((it, e), r)"
  shows "Erase k m =
     Inr (m\<lparr>lru_list := r, lru_key_map := map_erase k (lru_key_map m),
            lru_stats := (lru_stats m)\<lparr>num_erase := num_erase (lru_stats m) + 1\<rparr>\<rparr>)"
  using assms by (simp add: Erase_def list_erase_def)

subsection \<open>Every operation returns and keeps the invariant\<close>

lemma unlink_index:
  assumes "unlink it l = Some ((it, e), r)"
  shows "mset (index_of l) = add_mset (key e, it) (mset (index_of r))"
proof -
  have "mset (index_of l) = image_mset (\<lambda>n. (key (snd n), fst n)) (mset l)"
    by (simp add: index_of_def)
  also have "mset l = add_mset (it, e) (mset r)" using unlink_Some[OF assms] by simp
  finally show ?thesis by (simp add: index_of_def)
qed

lemma unlink_addrs:
  assumes "unlink it l = Some ((it, e), r)" "distinct (map fst l)"
  shows "distinct (map fst r) \<and> it \<notin> fst ` set r"
proof -
  have "mset (map fst l) = image_mset fst (mset l)" by simp
  also have "mset l = add_mset (it, e) (mset r)" using unlink_Some[OF assms(1)] by simp
  finally have "mset (map fst l) = mset (it # map fst r)" by simp
  with assms(2) have "distinct (it # map fst r)" by (metis mset_eq_imp_distinct_iff)
  then show ?thesis by simp
qed

lemma inv_relink:
  assumes "lru_inv m" "unlink it (lru_list m) = Some ((it, e), r)" "key e' = key e"
  shows "lru_inv (m\<lparr>lru_list := (it, e') # r, lru_stats := s\<rparr>)"
proof -
  from assms(1) have d: "distinct (map fst (lru_list m))" by (simp add: lru_inv_def)
  from unlink_length[OF assms(2)] have "length (lru_list m) = Suc (length r)" .
  with assms(1) unlink_index[OF assms(2)] unlink_addrs[OF assms(2) d] assms(3)
  show ?thesis by (simp add: lru_inv_def)
qed

lemma inv_Insert:
  assumes "lru_inv m"
  shows "\<exists>m'. Insert P now k v m = Inr m' \<and> lru_inv m' \<and> capacity m' = capacity m"
proof (cases "map_of (lru_key_map m) k")
  case (Some it)
  from inv_unlink[OF assms Some] obtain e r
    where u: "unlink it (lru_list m) = Some ((it, e), r)" and ke: "key e = k" by blast
  have "lru_inv (m\<lparr>lru_list := (it, UpdateModifyTimestamp P now (e\<lparr>val := v\<rparr>)) # r,
            lru_stats := (lru_stats m)\<lparr>num_insert := num_insert (lru_stats m) + 1\<rparr>\<rparr>)"
    by (rule inv_relink[OF assms u]) simp
  with Insert_hit[OF assms Some u ke, of P now v] show ?thesis by simp
next
  case None
  let ?l = "lru_list m" and ?km = "lru_key_map m"
  from assms have d: "distinct (map fst ?l)" "distinct (map fst ?km)"
    and ms: "mset (index_of ?l) = mset ?km" and cap: "1 \<le> capacity m"
    and le: "int (length ?l) \<le> capacity m"
    by (simp_all add: lru_inv_def)
  from None have knew: "k \<notin> fst ` set ?km" by (simp add: map_of_eq_None_iff)
  have fresh: "new_node ?l \<notin> fst ` set ?l" by (rule new_node_fresh)
  show ?thesis
  proof (cases "int (length ?l) < capacity m")
    case True
    with d ms cap knew fresh Insert_miss_fits[OF assms None True, of P now v]
    show ?thesis by (simp add: lru_inv_def)
  next
    case False
    with le have full: "int (length ?l) = capacity m" by simp
    with cap have ne: "?l \<noteq> []" by auto
    then have split: "?l = butlast ?l @ [last ?l]" by simp
    have "mset ?km = mset (index_of (butlast ?l @ [last ?l]))" using ms split by simp
    then have "mset ?km = add_mset (key (snd (last ?l)), fst (last ?l)) (mset (index_of (butlast ?l)))"
      by simp
    from map_erase_mset[OF d(2) this]
    have ms': "mset (index_of (butlast ?l)) = mset (map_erase (key (snd (last ?l))) ?km)" by simp
    have d1: "distinct (map fst (butlast ?l))" using d(1) by (simp add: distinct_butlast map_butlast)
    have d2: "distinct (map fst (map_erase (key (snd (last ?l))) ?km))"
      using d(2) by (simp add: map_erase_def distinct_map_filter)
    have f1: "new_node ?l \<notin> fst ` set (butlast ?l)" using fresh by (auto dest: in_set_butlastD)
    have f2: "k \<notin> fst ` set (map_erase (key (snd (last ?l))) ?km)"
      using knew by (auto simp: map_erase_def)
    from ne obtain n where "length ?l = Suc n" by (cases ?l) auto
    then have "int (length (butlast ?l)) + 1 = int (length ?l)" by simp
    with full have len: "int (length (butlast ?l)) + 1 \<le> capacity m" by simp
    from ms' d1 d2 f1 f2 len cap Insert_miss_overflow[OF assms None full, of P now v]
    show ?thesis by (simp add: lru_inv_def)
  qed
qed

lemma inv_Find:
  assumes "lru_inv m"
  shows "\<exists>res m'. Find P now k m = Inr (res, m') \<and> lru_inv m' \<and> capacity m' = capacity m"
proof (cases "map_of (lru_key_map m) k")
  case None
  with assms Find_miss[OF None, of P now] show ?thesis by (simp add: lru_inv_def)
next
  case (Some it)
  from inv_unlink[OF assms Some] obtain e r
    where u: "unlink it (lru_list m) = Some ((it, e), r)" and ke: "key e = k" by blast
  have "lru_inv (m\<lparr>lru_list := (it, UpdateAccessTimestamp P now (IncrementHitCount P e)) # r,
            lru_stats := (lru_stats m)\<lparr>num_find := num_find (lru_stats m) + 1,
                                       num_find_ok := num_find_ok (lru_stats m) + 1\<rparr>\<rparr>)"
    by (rule inv_relink[OF assms u]) simp
  with Find_hit[OF Some u ke, of P now] show ?thesis by simp
qed

lemma inv_Erase:
  assumes "lru_inv m"
  shows "\<exists>m'. Erase k m = Inr m' \<and> lru_inv m' \<and> capacity m' = capacity m"
proof (cases "map_of (lru_key_map m) k")
  case None
  with assms Erase_miss[OF None] show ?thesis by (simp add: lru_inv_def)
next
  case (Some it)
  from inv_unlink[OF assms Some] obtain e r
    where u: "unlink it (lru_list m) = Some ((it, e), r)" and ke: "key e = k" by blast
  from assms have d: "distinct (map fst (lru_list m))" "distinct (map fst (lru_key_map m))"
    and ms: "mset (index_of (lru_list m)) = mset (lru_key_map m)"
    by (simp_all add: lru_inv_def)
  from unlink_index[OF u] ms ke have "mset (lru_key_map m) = add_mset (k, it) (mset (index_of r))"
    by simp
  from map_erase_mset[OF d(2) this]
  have ms': "mset (index_of r) = mset (map_erase k (lru_key_map m))" by simp
  have d2: "distinct (map fst (map_erase k (lru_key_map m)))"
    using d(2) by (simp add: map_erase_def distinct_map_filter)
  from unlink_length[OF u] have "length (lru_list m) = Suc (length r)" .
  with assms ms' d2 unlink_addrs[OF u d(1)] Erase_hit[OF Some u] show ?thesis
    by (simp add: lru_inv_def)
qed

lemma inv_Clear: "lru_inv m \<Longrightarrow> lru_inv (Clear m) \<and> capacity (Clear m) = capacity m"
  by (simp add: lru_inv_def Clear_def)

lemma inv_ctor: "1 \<le> cap \<Longrightarrow> \<exists>m. LruMap_ctor cap = Inr m \<and> lru_inv m \<and> capacity m = cap"
  by (simp add: LruMap_ctor_def lru_inv_def)

lemma inv_step:
  assumes "lru_inv m"
  shows "\<exists>m'. step P c m = Inr m' \<and> lru_inv m' \<and> capacity m' = capacity m"
proof (cases c)
  case (Pair now call)
  show ?thesis
  proof (cases call)
    case (CallInsert k v)
    with Pair inv_Insert[OF assms, of P now k v] show ?thesis by simp
  next
    case (CallFind k)
    with Pair inv_Find[OF assms, of P now k] show ?thesis by auto
  next
    case (CallExists k)
    with Pair assms show ?thesis by simp
  next
    case (CallErase k)
    with Pair inv_Erase[OF assms, of k] show ?thesis by simp
  next
    case CallClear
    with Pair inv_Clear[OF assms] show ?thesis by simp
  next
    case CallSize
    with Pair assms inv_length[OF assms] show ?thesis by (simp add: Size_def SizePrivate_def)
  next
    case CallValid
    with Pair assms show ?thesis by simp
  qed
qed

lemma inv_run:
  "lru_inv m \<Longrightarrow> \<exists>m'. run P cs m = Inr m' \<and> lru_inv m' \<and> capacity m' = capacity m"
proof (induction cs arbitrary: m)
  case Nil then show ?case by simp
next
  case (Cons c cs)
  from inv_step[OF Cons.prems, of P c] obtain m1
    where s: "step P c m = Inr m1" "lru_inv m1" "capacity m1 = capacity m" by blast
  from Cons.IH[OF s(2)] s(1,3) show ?case by auto
qed

lemma inv_construct_and_run:
  assumes "1 \<le> cap"
  shows "\<exists>m. construct_and_run P cap calls = Inr m \<and> lru_inv m \<and> capacity m = cap"
proof -
  from inv_ctor[OF assms] obtain m0 :: "('a, 'b) LruMap"
    where m0: "LruMap_ctor cap = Inr m0" "lru_inv m0" "capacity m0 = cap" by blast
  from inv_run[OF m0(2), of P calls] m0(1,3) show ?thesis
    by (auto simp: construct_and_run_def)
qed

lemma reachable_inv:
  assumes "construct_and_run P cap calls = Inr m"
  shows "lru_inv m \<and> capacity m = cap"
proof (cases "1 \<le> cap")
  case True
  from inv_construct_and_run[OF True, of P calls] assms show ?thesis by auto
next
  case False
  with assms show ?thesis by (simp add: construct_and_run_def LruMap_ctor_def)
qed

lemma unlink_filter:
  "distinct (map fst l) \<Longrightarrow> unlink it l = Some (n, r) \<Longrightarrow> r = filter (\<lambda>x. fst x \<noteq> it) l"
proof (induction l arbitrary: r)
  case Nil then show ?case by simp
next
  case (Cons x xs)
  show ?case
  proof (cases "fst x = it")
    case True
    with Cons.prems have "r = xs" "it \<notin> fst ` set xs" by auto
    then have "filter (\<lambda>x. fst x \<noteq> it) xs = xs" by (auto simp: filter_id_conv)
    with True \<open>r = xs\<close> show ?thesis by simp
  next
    case False
    with Cons.prems obtain r' where u: "unlink it xs = Some (n, r')" and r: "r = x # r'"
      by (auto split: option.splits)
    from Cons.prems(1) have "distinct (map fst xs)" by simp
    from Cons.IH[OF this u] r False show ?thesis by simp
  qed
qed

lemma Insert_result_front:
  assumes "lru_inv m"
  shows "\<exists>m1 it e r. Insert P now k v m = Inr m1 \<and> lru_inv m1 \<and> capacity m1 = capacity m \<and>
           lru_list m1 = (it, e) # r \<and> key e = k \<and> val e = v"
proof -
  from inv_Insert[OF assms, of P now k v] obtain m1
    where m1: "Insert P now k v m = Inr m1" "lru_inv m1" "capacity m1 = capacity m" by blast
  have "\<exists>it e r. lru_list m1 = (it, e) # r \<and> key e = k \<and> val e = v"
  proof (cases "map_of (lru_key_map m) k")
    case (Some it)
    from inv_unlink[OF assms Some] obtain e r
      where u: "unlink it (lru_list m) = Some ((it, e), r)" and ke: "key e = k" by blast
    from Insert_hit[OF assms Some u ke, of P now v] m1(1) ke show ?thesis by auto
  next
    case None
    from assms have "int (length (lru_list m)) \<le> capacity m" by (simp add: lru_inv_def)
    then consider "int (length (lru_list m)) < capacity m" | "int (length (lru_list m)) = capacity m"
      by linarith
    then show ?thesis
    proof cases
      case 1
      from Insert_miss_fits[OF assms None 1, of P now v] m1(1) show ?thesis by auto
    next
      case 2
      from Insert_miss_overflow[OF assms None 2, of P now v] m1(1) show ?thesis by auto
    qed
  qed
  with m1 show ?thesis by blast
qed

lemma Find_front:
  assumes "lru_inv m" "lru_list m = (it, e) # r"
  shows "\<exists>m2. Find P now (key e) m = Inr (Some (val e), m2)"
proof -
  from assms(2) have "(it, e) \<in> set (lru_list m)" by simp
  from inv_entry[OF assms(1) this] have "map_of (lru_key_map m) (key e) = Some it" .
  moreover have "unlink it (lru_list m) = Some ((it, e), r)" using assms(2) by simp
  ultimately show ?thesis using Find_hit[of m "key e" it e r P now] by simp
qed

lemma Erase_absent:
  assumes "lru_inv m"
  shows "\<exists>m1. Erase k m = Inr m1 \<and> map_of (lru_key_map m1) k = None"
proof (cases "map_of (lru_key_map m) k")
  case None
  with Erase_miss[OF None] show ?thesis by simp
next
  case (Some it)
  from inv_unlink[OF assms Some] obtain e r
    where u: "unlink it (lru_list m) = Some ((it, e), r)" by blast
  have "map_of (map_erase k (lru_key_map m)) k = None"
    by (auto simp: map_of_eq_None_iff map_erase_def)
  with Erase_hit[OF Some u] show ?thesis by simp
qed

lemmas call_defs =
  construct_and_run_def LruMap_ctor_def Insert_def Insert_front_def Insert_overflow_def
  SizePrivate_def Find_def Erase_def Clear_def Exists_def Size_def splice_begin_def
  list_erase_def push_front_def new_node_def map_insert_def map_erase_def KeyValueEntry_def
  UpdateAccessTimestamp_def UpdateModifyTimestamp_def IncrementHitCount_def

subsection \<open>The counters\<close>

lemma Insert_front_stats: "Insert_front k v m = Inr m1 \<Longrightarrow> lru_stats m1 = lru_stats m"
  by (auto simp: Insert_front_def split: option.splits sum.splits list.splits if_splits prod.splits)

lemma Insert_overflow_stats:
  "Insert_overflow m = Inr m2 \<Longrightarrow>
   lru_stats m2 = lru_stats m \<or>
   lru_stats m2 = (lru_stats m)\<lparr>num_overflow := num_overflow (lru_stats m) + 1\<rparr>"
  by (auto simp: Insert_overflow_def split: sum.splits if_splits)

lemma Insert_stats:
  assumes "Insert P now k v m = Inr m'"
  shows "lru_stats m' = (lru_stats m)\<lparr>num_insert := num_insert (lru_stats m) + 1\<rparr> \<or>
         lru_stats m' = (lru_stats m)\<lparr>num_overflow := num_overflow (lru_stats m) + 1,
                                       num_insert := num_insert (lru_stats m) + 1\<rparr>"
proof -
  from assms obtain m1 n ns m2 where m1: "Insert_front k v m = Inr m1"
    and l: "lru_list m1 = n # ns"
    and m2: "Insert_overflow (m1\<lparr>lru_list := (fst n, UpdateModifyTimestamp P now (snd n)) # ns\<rparr>) = Inr m2"
    and m': "m' = m2\<lparr>lru_stats := (lru_stats m2)\<lparr>num_insert := num_insert (lru_stats m2) + 1\<rparr>\<rparr>"
    by (auto simp: Insert_def split: sum.splits list.splits)
  from Insert_front_stats[OF m1] Insert_overflow_stats[OF m2] m' show ?thesis by auto
qed

lemma Find_stats:
  "Find P now k m = Inr (res, m') \<Longrightarrow>
   lru_stats m' =
     (if res = None then (lru_stats m)\<lparr>num_find := num_find (lru_stats m) + 1\<rparr>
      else (lru_stats m)\<lparr>num_find := num_find (lru_stats m) + 1,
                         num_find_ok := num_find_ok (lru_stats m) + 1\<rparr>)"
  by (auto simp: Find_def Let_def split: option.splits sum.splits list.splits if_splits)

lemma Erase_stats:
  "Erase k m = Inr m' \<Longrightarrow>
   lru_stats m' = (lru_stats m)\<lparr>num_erase := num_erase (lru_stats m) + 1\<rparr>"
  by (auto simp: Erase_def Let_def split: option.splits sum.splits)

lemma step_counters:
  assumes "step P c m = Inr m'"
  shows "counters_le (lru_stats m) (lru_stats m') \<and>
         (counters_ok (lru_stats m) \<longrightarrow> counters_ok (lru_stats m'))"
proof (cases c)
  case (Pair now call)
  show ?thesis
  proof (cases call)
    case (CallInsert k v)
    with Pair assms have "Insert P now k v m = Inr m'" by simp
    from Insert_stats[OF this] show ?thesis by (auto simp: counters_le_def counters_ok_def)
  next
    case (CallFind k)
    with Pair assms obtain res where "Find P now k m = Inr (res, m')"
      by (auto split: sum.splits)
    from Find_stats[OF this] show ?thesis by (auto simp: counters_le_def counters_ok_def)
  next
    case (CallExists k)
    with Pair assms show ?thesis by (auto simp: counters_le_def)
  next
    case (CallErase k)
    with Pair assms have "Erase k m = Inr m'" by simp
    from Erase_stats[OF this] show ?thesis by (auto simp: counters_le_def counters_ok_def)
  next
    case CallClear
    with Pair assms show ?thesis by (auto simp: counters_le_def counters_ok_def Clear_def)
  next
    case CallSize
    with Pair assms show ?thesis by (auto simp: counters_le_def split: sum.splits)
  next
    case CallValid
    with Pair assms show ?thesis by (auto simp: counters_le_def)
  qed
qed

lemma run_counters:
  "run P cs m = Inr m' \<Longrightarrow> counters_ok (lru_stats m) \<Longrightarrow> counters_ok (lru_stats m')"
proof (induction cs arbitrary: m)
  case Nil then show ?case by simp
next
  case (Cons c cs)
  from Cons.prems(1) obtain m1 where s: "step P c m = Inr m1" and r: "run P cs m1 = Inr m'"
    by (auto split: sum.splits)
  from step_counters[OF s] Cons.prems(2) have "counters_ok (lru_stats m1)" by simp
  from Cons.IH[OF r this] show ?case .
qed

subsection \<open>The keys of the list after an operation\<close>

lemma run_append:
  "run P (xs @ ys) m = (case run P xs m of Inl e \<Rightarrow> Inl e | Inr m' \<Rightarrow> run P ys m')"
  by (induction xs arbitrary: m) (auto split: sum.splits)

lemma construct_and_run_append:
  "construct_and_run P cap (xs @ ys) =
     (case construct_and_run P cap xs of Inl e \<Rightarrow> Inl e | Inr m' \<Rightarrow> run P ys m')"
  by (simp add: construct_and_run_def run_append split: sum.splits)

lemma inv_present:
  assumes "lru_inv m"
  shows "Exists k m \<longleftrightarrow> k \<in> set (keys_of (lru_list m))"
  using inv_keys_set[OF assms] by (simp add: Exists_def map_of_eq_None_iff)

lemma Insert_new_key:
  assumes "lru_inv m" "k \<notin> set (keys_of (lru_list m))"
  shows "\<exists>m'. Insert P now k v m = Inr m' \<and> lru_inv m' \<and> capacity m' = capacity m \<and>
           keys_of (lru_list m') =
             (if int (length (lru_list m)) = capacity m
              then k # butlast (keys_of (lru_list m)) else k # keys_of (lru_list m)) \<and>
           lru_stats m' =
             (if int (length (lru_list m)) = capacity m
              then (lru_stats m)\<lparr>num_overflow := num_overflow (lru_stats m) + 1,
                                  num_insert := num_insert (lru_stats m) + 1\<rparr>
              else (lru_stats m)\<lparr>num_insert := num_insert (lru_stats m) + 1\<rparr>)"
proof -
  from assms inv_present[OF assms(1), of k] have None: "map_of (lru_key_map m) k = None"
    by (simp add: Exists_def)
  from inv_Insert[OF assms(1), of P now k v] obtain m'
    where m': "Insert P now k v m = Inr m'" "lru_inv m'" "capacity m' = capacity m" by blast
  from assms(1) have "int (length (lru_list m)) \<le> capacity m" by (simp add: lru_inv_def)
  then consider "int (length (lru_list m)) < capacity m" | "int (length (lru_list m)) = capacity m"
    by linarith
  then show ?thesis
  proof cases
    case 1
    from Insert_miss_fits[OF assms(1) None 1, of P now v] m' 1 show ?thesis by auto
  next
    case 2
    from Insert_miss_overflow[OF assms(1) None 2, of P now v] m' 2 show ?thesis
      by (auto simp: keys_of_def map_butlast)
  qed
qed

lemma Find_present_key:
  assumes "lru_inv m" "k \<in> set (keys_of (lru_list m))"
  shows "\<exists>v m'. Find P now k m = Inr (Some v, m') \<and> lru_inv m' \<and> capacity m' = capacity m \<and>
           keys_of (lru_list m') = k # remove1 k (keys_of (lru_list m)) \<and>
           num_overflow (lru_stats m') = num_overflow (lru_stats m)"
proof -
  from assms inv_present[OF assms(1), of k] obtain it
    where s: "map_of (lru_key_map m) k = Some it" by (auto simp: Exists_def)
  from inv_unlink[OF assms(1) s] obtain e r
    where u: "unlink it (lru_list m) = Some ((it, e), r)" and ke: "key e = k" by blast
  let ?m' = "m\<lparr>lru_list := (it, UpdateAccessTimestamp P now (IncrementHitCount P e)) # r,
               lru_stats := (lru_stats m)\<lparr>num_find := num_find (lru_stats m) + 1,
                                          num_find_ok := num_find_ok (lru_stats m) + 1\<rparr>\<rparr>"
  have f: "Find P now k m = Inr (Some (val e), ?m')" by (rule Find_hit[OF s u ke])
  have i: "lru_inv ?m'" by (rule inv_relink[OF assms(1) u]) simp
  have "keys_of (lru_list ?m') = k # remove1 k (keys_of (lru_list m))"
    using unlink_keys[OF inv_keys_distinct[OF assms(1)] u] ke by simp
  with f i show ?thesis by (intro exI[of _ "val e"] exI[of _ ?m']) simp
qed

lemma run_insert_calls:
  assumes "1 \<le> cap" "distinct (inserted_keys ins)"
  shows "\<exists>m. construct_and_run P cap (insert_calls ins) = Inr m \<and> lru_inv m \<and> capacity m = cap \<and>
           keys_of (lru_list m) = take (nat cap) (rev (inserted_keys ins)) \<and>
           lru_stats m = \<lparr>num_insert = int (length ins),
                          num_overflow = max 0 (int (length ins) - cap),
                          num_find = 0, num_find_ok = 0, num_erase = 0, num_clear = 0\<rparr>"
  using assms(2)
proof (induction ins rule: rev_induct)
  case Nil
  with assms(1) show ?case
    by (simp add: construct_and_run_def LruMap_ctor_def insert_calls_def inserted_keys_def
        lru_inv_def)
next
  case (snoc x xs)
  obtain t k v where x: "x = (t, k, v)" by (cases x) auto
  from snoc.prems x have d: "distinct (inserted_keys xs)" and kn: "k \<notin> set (inserted_keys xs)"
    by (simp_all add: inserted_keys_def)
  from snoc.IH[OF d] obtain m where m: "construct_and_run P cap (insert_calls xs) = Inr m"
    "lru_inv m" "capacity m = cap"
    "keys_of (lru_list m) = take (nat cap) (rev (inserted_keys xs))"
    "lru_stats m = \<lparr>num_insert = int (length xs),
                    num_overflow = max 0 (int (length xs) - cap),
                    num_find = 0, num_find_ok = 0, num_erase = 0, num_clear = 0\<rparr>" by blast
  from kn m(4) have "k \<notin> set (keys_of (lru_list m))" by (auto dest: in_set_takeD)
  from Insert_new_key[OF m(2) this, of P t v] obtain m'
    where m': "Insert P t k v m = Inr m'" "lru_inv m'" "capacity m' = capacity m"
      "keys_of (lru_list m') =
             (if int (length (lru_list m)) = capacity m
              then k # butlast (keys_of (lru_list m)) else k # keys_of (lru_list m))"
      "lru_stats m' =
             (if int (length (lru_list m)) = capacity m
              then (lru_stats m)\<lparr>num_overflow := num_overflow (lru_stats m) + 1,
                                  num_insert := num_insert (lru_stats m) + 1\<rparr>
              else (lru_stats m)\<lparr>num_insert := num_insert (lru_stats m) + 1\<rparr>)" by blast
  have r: "construct_and_run P cap (insert_calls (xs @ [x])) = Inr m'"
    using m(1) m'(1) x by (simp add: insert_calls_def construct_and_run_append)
  have len: "length (lru_list m) = min (length xs) (nat cap)"
  proof -
    have "length (lru_list m) = length (keys_of (lru_list m))" by simp
    also have "\<dots> = min (length xs) (nat cap)" unfolding m(4) by (simp add: inserted_keys_def)
    finally show ?thesis .
  qed
  have ks: "keys_of (lru_list m') = take (nat cap) (rev (inserted_keys (xs @ [x])))"
  proof (cases "int (length (lru_list m)) = capacity m")
    case True
    with len m(3) assms(1) have full: "nat cap \<le> length xs" by linarith
    from assms(1) obtain c where c: "nat cap = Suc c" by (cases "nat cap") auto
    from True m'(4) have "keys_of (lru_list m') = k # butlast (take (nat cap) (rev (inserted_keys xs)))"
      by (simp add: m(4))
    also have "butlast (take (nat cap) (rev (inserted_keys xs))) = take c (rev (inserted_keys xs))"
      using full c by (simp add: butlast_take inserted_keys_def)
    finally show ?thesis using c x by (simp add: inserted_keys_def)
  next
    case False
    with len m(3) assms(1) have short: "length xs < nat cap" by linarith
    from assms(1) obtain c where c: "nat cap = Suc c" by (cases "nat cap") auto
    from False m'(4) have "keys_of (lru_list m') = k # take (nat cap) (rev (inserted_keys xs))"
      by (simp add: m(4))
    with short c x show ?thesis by (simp add: inserted_keys_def)
  qed
  have st: "lru_stats m' = \<lparr>num_insert = int (length (xs @ [x])),
                          num_overflow = max 0 (int (length (xs @ [x])) - cap),
                          num_find = 0, num_find_ok = 0, num_erase = 0, num_clear = 0\<rparr>"
  proof (cases "int (length (lru_list m)) = capacity m")
    case True
    with len m(3) assms(1) have "nat cap \<le> length xs" by linarith
    with True m'(5) m(5) assms(1) show ?thesis by simp
  next
    case False
    with len m(3) assms(1) have "length xs < nat cap" by linarith
    with False m'(5) m(5) assms(1) show ?thesis by simp
  qed
  from r m'(2,3) m(3) ks st show ?case by simp
qed

lemma inserted_keys_take: "inserted_keys (take n ins) = take n (inserted_keys ins)"
  by (simp add: inserted_keys_def take_map)

lemma inv_index_keys:
  "lru_inv m \<Longrightarrow> mset (map fst (lru_key_map m)) = mset (keys_of (lru_list m))"
  using inv_keys_mset[of m] by simp

lemma last_notin_butlast: "distinct xs \<Longrightarrow> xs \<noteq> [] \<Longrightarrow> last xs \<notin> set (butlast xs)"
proof -
  assume d: "distinct xs" and ne: "xs \<noteq> []"
  from ne have "xs = butlast xs @ [last xs]" by simp
  with d have "distinct (butlast xs @ [last xs])" by simp
  then show ?thesis by simp
qed

lemma Find_result:
  assumes "lru_inv m"
  shows "\<exists>r m'. Find P now k m = Inr (r, m') \<and> lru_inv m' \<and>
           (r \<noteq> None) = (k \<in> set (keys_of (lru_list m))) \<and>
           set (keys_of (lru_list m')) = set (keys_of (lru_list m)) \<and>
           lru_stats m' =
             (if r = None then (lru_stats m)\<lparr>num_find := num_find (lru_stats m) + 1\<rparr>
              else (lru_stats m)\<lparr>num_find := num_find (lru_stats m) + 1,
                                 num_find_ok := num_find_ok (lru_stats m) + 1\<rparr>)"
proof (cases "k \<in> set (keys_of (lru_list m))")
  case True
  from Find_present_key[OF assms True, of P now] obtain v m'
    where f: "Find P now k m = Inr (Some v, m')" "lru_inv m'"
      "keys_of (lru_list m') = k # remove1 k (keys_of (lru_list m))" by blast
  from f(3) True have "set (keys_of (lru_list m')) = set (keys_of (lru_list m))"
    using inv_keys_distinct[OF assms] by auto
  with f(1,2) True Find_stats[OF f(1)] show ?thesis by simp
next
  case False
  with inv_present[OF assms, of k] have "map_of (lru_key_map m) k = None"
    by (simp add: Exists_def)
  from Find_miss[OF this, of P now] False assms show ?thesis by (simp add: lru_inv_def)
qed

subsection \<open>The order of the timestamps\<close>

lemma Valid_loop_ordered:
  "sorted_wrt (\<lambda>a b. b \<le> a) (map (\<lambda>n. current_recent_usecs (snd n)) l) \<Longrightarrow>
   \<forall>n \<in> set l. current_recent_usecs (snd n) \<le> prev \<Longrightarrow> Valid_loop prev l"
  by (induction l arbitrary: prev) auto

lemma current_recent_usecs_max: "current_recent_usecs e \<le> 2 ^ 63 - 1"
proof -
  have "sint (access_time_usecs e) < 2 ^ 63" "sint (modify_time_usecs e) < 2 ^ 63"
    using sint_lt[of "access_time_usecs e"] sint_lt[of "modify_time_usecs e"] by simp_all
  then show ?thesis by (simp add: current_recent_usecs_def)
qed

lemma ordered_Valid:
  assumes "timestamps_ordered T l"
  shows "TimestampAll_Valid l"
proof -
  have "\<forall>n \<in> set l. current_recent_usecs (snd n) \<le> 2 ^ 63 - 1"
    using current_recent_usecs_max by blast
  moreover from assms
  have "sorted_wrt (\<lambda>a b. b \<le> a) (map (\<lambda>n. current_recent_usecs (snd n)) l)"
    by (simp add: timestamps_ordered_def)
  ultimately show ?thesis unfolding TimestampAll_Valid_def by (intro Valid_loop_ordered)
qed

lemma ordered_mono: "timestamps_ordered T l \<Longrightarrow> T \<le> T' \<Longrightarrow> timestamps_ordered T' l"
  by (force simp: timestamps_ordered_def)

lemma ordered_front:
  assumes "timestamps_ordered T r" "T \<le> current_recent_usecs e"
  shows "timestamps_ordered (current_recent_usecs e) ((it, e) # r)"
  using assms by (force simp: timestamps_ordered_def)

lemma ordered_unlink:
  assumes "unlink it l = Some (n, r)" "timestamps_ordered T l"
  shows "timestamps_ordered T r \<and> current_recent_usecs (snd n) \<le> T"
proof -
  from unlink_Some[OF assms(1)] have "set_mset (mset l) = insert n (set_mset (mset r))" by simp
  then have s: "set l = insert n (set r)" by simp
  from assms(2) have "sorted_wrt (\<lambda>a b. b \<le> a) (map (\<lambda>n. current_recent_usecs (snd n)) l)"
    by (simp add: timestamps_ordered_def)
  from unlink_sorted_wrt[OF assms(1) this] assms(2) s show ?thesis
    by (simp add: timestamps_ordered_def)
qed

lemma ordered_butlast: "timestamps_ordered T l \<Longrightarrow> timestamps_ordered T (butlast l)"
proof -
  assume a: "timestamps_ordered T l"
  then have "sorted_wrt (\<lambda>a b. b \<le> a) (take (length l - 1) (map (\<lambda>n. current_recent_usecs (snd n)) l))"
    unfolding timestamps_ordered_def by (intro sorted_wrt_take) simp
  then have "sorted_wrt (\<lambda>a b. b \<le> a) (map (\<lambda>n. current_recent_usecs (snd n)) (butlast l))"
    by (simp add: butlast_conv_take take_map)
  with a show ?thesis by (auto simp: timestamps_ordered_def dest: in_set_butlastD)
qed

lemma recent_modify:
  assumes "timestamping P = TimestampAll" "sint (access_time_usecs e) \<le> sint now"
  shows "current_recent_usecs (UpdateModifyTimestamp P now e) = sint now"
  using assms by (simp add: current_recent_usecs_def UpdateModifyTimestamp_def)

lemma recent_access:
  assumes "timestamping P = TimestampAll" "sint (modify_time_usecs e) \<le> sint now"
  shows "current_recent_usecs (UpdateAccessTimestamp P now (IncrementHitCount P e)) = sint now"
  using assms
  by (simp add: current_recent_usecs_def UpdateAccessTimestamp_def IncrementHitCount_def
      split: HitCountingPolicy.splits)

lemma recent_bounds:
  "sint (access_time_usecs e) \<le> current_recent_usecs e"
  "sint (modify_time_usecs e) \<le> current_recent_usecs e"
  by (simp_all add: current_recent_usecs_def)

lemma Insert_ordered:
  assumes "lru_inv m" "timestamps_ordered T (lru_list m)" "T \<le> sint now" "0 \<le> sint now"
    "timestamping P = TimestampAll" "Insert P now k v m = Inr m'"
  shows "timestamps_ordered (sint now) (lru_list m')"
proof (cases "map_of (lru_key_map m) k")
  case (Some it)
  from inv_unlink[OF assms(1) Some] obtain e r
    where u: "unlink it (lru_list m) = Some ((it, e), r)" and ke: "key e = k" by blast
  from ordered_unlink[OF u assms(2)] have r: "timestamps_ordered T r"
    and e: "current_recent_usecs e \<le> T" by simp_all
  let ?e = "UpdateModifyTimestamp P now (e\<lparr>val := v\<rparr>)"
  from e recent_bounds(1)[of e] assms(3) have "sint (access_time_usecs (e\<lparr>val := v\<rparr>)) \<le> sint now"
    by simp
  from recent_modify[OF assms(5) this] have c: "current_recent_usecs ?e = sint now" .
  with assms(3) have "T \<le> current_recent_usecs ?e" by simp
  from ordered_front[OF r this, of it] c have "timestamps_ordered (sint now) ((it, ?e) # r)"
    by simp
  with Insert_hit[OF assms(1) Some u ke, of P now v] assms(6) show ?thesis by auto
next
  case None
  let ?e = "UpdateModifyTimestamp P now (KeyValueEntry k v)"
  from assms(4) have "sint (access_time_usecs (KeyValueEntry k v)) \<le> sint now"
    by (simp add: KeyValueEntry_def)
  from recent_modify[OF assms(5) this] have c: "current_recent_usecs ?e = sint now" .
  with assms(3) have le: "T \<le> current_recent_usecs ?e" by simp
  from assms(1) have "int (length (lru_list m)) \<le> capacity m" by (simp add: lru_inv_def)
  then consider "int (length (lru_list m)) < capacity m" | "int (length (lru_list m)) = capacity m"
    by linarith
  then show ?thesis
  proof cases
    case 1
    from ordered_front[OF assms(2) le, of "new_node (lru_list m)"] c
    have "timestamps_ordered (sint now) ((new_node (lru_list m), ?e) # lru_list m)" by simp
    with Insert_miss_fits[OF assms(1) None 1, of P now v] assms(6) show ?thesis by auto
  next
    case 2
    from ordered_front[OF ordered_butlast[OF assms(2)] le, of "new_node (lru_list m)"] c
    have "timestamps_ordered (sint now) ((new_node (lru_list m), ?e) # butlast (lru_list m))"
      by simp
    with Insert_miss_overflow[OF assms(1) None 2, of P now v] assms(6) show ?thesis by auto
  qed
qed

lemma Find_ordered:
  assumes "lru_inv m" "timestamps_ordered T (lru_list m)" "T \<le> sint now"
    "timestamping P = TimestampAll" "Find P now k m = Inr (res, m')"
  shows "timestamps_ordered (sint now) (lru_list m')"
proof (cases "map_of (lru_key_map m) k")
  case None
  from Find_miss[OF None, of P now] assms(5) ordered_mono[OF assms(2,3)] show ?thesis by auto
next
  case (Some it)
  from inv_unlink[OF assms(1) Some] obtain e r
    where u: "unlink it (lru_list m) = Some ((it, e), r)" and ke: "key e = k" by blast
  from ordered_unlink[OF u assms(2)] have r: "timestamps_ordered T r"
    and e: "current_recent_usecs e \<le> T" by simp_all
  let ?e = "UpdateAccessTimestamp P now (IncrementHitCount P e)"
  from e recent_bounds(2)[of e] assms(3) have "sint (modify_time_usecs e) \<le> sint now" by simp
  from recent_access[OF assms(4) this] have c: "current_recent_usecs ?e = sint now" .
  with assms(3) have "T \<le> current_recent_usecs ?e" by simp
  from ordered_front[OF r this, of it] c have "timestamps_ordered (sint now) ((it, ?e) # r)"
    by simp
  with Find_hit[OF Some u ke, of P now] assms(5) show ?thesis by auto
qed

lemma Erase_ordered:
  assumes "lru_inv m" "timestamps_ordered T (lru_list m)" "Erase k m = Inr m'"
  shows "timestamps_ordered T (lru_list m')"
proof (cases "map_of (lru_key_map m) k")
  case None
  from Erase_miss[OF None] assms(2,3) show ?thesis by auto
next
  case (Some it)
  from inv_unlink[OF assms(1) Some] obtain e r
    where u: "unlink it (lru_list m) = Some ((it, e), r)" by blast
  from ordered_unlink[OF u assms(2)] Erase_hit[OF Some u] assms(3) show ?thesis by auto
qed

lemma step_ordered:
  assumes "lru_inv m" "timestamps_ordered T (lru_list m)" "T \<le> sint now" "0 \<le> sint now"
    "timestamping P = TimestampAll" "step P (now, c) m = Inr m'"
  shows "timestamps_ordered (sint now) (lru_list m')"
proof (cases c)
  case (CallInsert k v)
  with assms(6) have "Insert P now k v m = Inr m'" by simp
  from Insert_ordered[OF assms(1-5) this] show ?thesis .
next
  case (CallFind k)
  with assms(6) obtain res where "Find P now k m = Inr (res, m')" by (auto split: sum.splits)
  from Find_ordered[OF assms(1-3,5) this] show ?thesis .
next
  case (CallExists k)
  with assms(6) ordered_mono[OF assms(2,3)] show ?thesis by auto
next
  case (CallErase k)
  with assms(6) have "Erase k m = Inr m'" by simp
  from ordered_mono[OF Erase_ordered[OF assms(1,2) this] assms(3)] show ?thesis .
next
  case CallClear
  with assms(6) show ?thesis by (auto simp: Clear_def timestamps_ordered_def)
next
  case CallSize
  with assms(6) ordered_mono[OF assms(2,3)] show ?thesis by (auto split: sum.splits)
next
  case CallValid
  with assms(6) ordered_mono[OF assms(2,3)] show ?thesis by auto
qed

lemma run_ordered:
  assumes "timestamping P = TimestampAll"
  shows "lru_inv m \<Longrightarrow> timestamps_ordered T (lru_list m) \<Longrightarrow> 0 \<le> T \<Longrightarrow>
         sorted (T # clock_readings calls) \<Longrightarrow> run P calls m = Inr m' \<Longrightarrow>
         \<exists>T'. timestamps_ordered T' (lru_list m')"
proof (induction calls arbitrary: m T)
  case Nil
  then show ?case by auto
next
  case (Cons c cs)
  obtain now call where c: "c = (now, call)" by (cases c) auto
  from Cons.prems(5) obtain m1 where s: "step P (now, call) m = Inr m1"
    and r: "run P cs m1 = Inr m'" by (auto simp: c split: sum.splits)
  from Cons.prems(4) c have le: "T \<le> sint now" and so: "sorted (sint now # clock_readings cs)"
    by (simp_all add: clock_readings_def)
  from le Cons.prems(3) have nn: "0 \<le> sint now" by simp
  from inv_step[OF Cons.prems(1), of P "(now, call)"] s have i1: "lru_inv m1" by simp
  from step_ordered[OF Cons.prems(1,2) le nn assms s]
  have "timestamps_ordered (sint now) (lru_list m1)" .
  from Cons.IH[OF i1 this nn so r] show ?case .
qed

text \<open>
  Both timestamps of a new entry start at 0, the epoch. Readings before the epoch,
  which the wall clock does not give, are below that start, and the audit does not
  order them against it: this is why the readings are taken from 0 on.
\<close>

lemma audit_before_epoch:
  "Valid_after \<lparr>timestamping = TimestampAll, hit_counting = HitCountDisabled\<rparr> 2
     [(- 5, CallInsert ''k0'' ''a''), (- 4, CallInsert ''k1'' ''b''), (- 3, CallFind ''k0'')]
   = Inr False"
  by (simp add: Valid_after_def Valid_def TimestampAll_Valid_def
      current_recent_usecs_def call_defs)

section \<open>The claims\<close>

text \<open>
  Claim C1. For a map constructed with a capacity of at least 1 and any sequence of
  calls of the public operations, after each call (that is, after the first \<open>i\<close> calls,
  for every \<open>i\<close>) no call has failed, the list and the map have the same size, that size
  is at most the capacity, which is the one given at construction, every key of the map
  has an iterator that is the address of a list node holding that key, and the key of
  every list node is in the map with the address of that node. No two nodes share an
  address and no two map elements share a key.
\<close>

theorem index_and_sequence_consistent:
  assumes "1 \<le> cap"
  shows "\<exists>m. construct_and_run P cap (take i calls) = Inr m \<and>
           length (lru_list m) = length (lru_key_map m) \<and>
           int (length (lru_list m)) \<le> cap \<and> capacity m = cap \<and>
           distinct (map fst (lru_list m)) \<and> distinct (map fst (lru_key_map m)) \<and>
           (\<forall>k it. map_of (lru_key_map m) k = Some it \<longrightarrow>
              (\<exists>e. map_of (lru_list m) it = Some e \<and> key e = k)) \<and>
           (\<forall>n \<in> set (lru_list m). map_of (lru_key_map m) (key (snd n)) = Some (fst n))"
proof -
  from inv_construct_and_run[OF assms, of P "take i calls"] obtain m :: "('a, 'b) LruMap"
    where m: "construct_and_run P cap (take i calls) = Inr m" "lru_inv m" "capacity m = cap"
    by blast
  from m(2) have d: "distinct (map fst (lru_list m))" "distinct (map fst (lru_key_map m))"
    and le: "int (length (lru_list m)) \<le> capacity m"
    by (simp_all add: lru_inv_def)
  have a: "\<exists>e. map_of (lru_list m) it = Some e \<and> key e = k"
    if "map_of (lru_key_map m) k = Some it" for k it
  proof -
    from inv_lookup[OF m(2) that] obtain e where "(it, e) \<in> set (lru_list m)" "key e = k"
      by blast
    with d(1) show ?thesis by auto
  qed
  have b: "map_of (lru_key_map m) (key (snd n)) = Some (fst n)" if "n \<in> set (lru_list m)" for n
    using inv_entry[OF m(2), of "fst n" "snd n"] that by simp
  from m(1,3) inv_length[OF m(2)] le d a b show ?thesis by blast
qed

theorem index_and_sequence_consistent_witness:
  "\<exists>m. construct_and_run \<lparr>timestamping = TimestampAll, hit_counting = HitCountEnabled\<rparr> 2
          (take 4 [(1, CallInsert ''k1'' ''a''), (2, CallInsert ''k2'' ''b''),
                   (3, CallFind ''k1''), (4, CallInsert ''k3'' ''c''), (5, CallErase ''k1'')])
        = Inr m \<and>
        length (lru_list m) = 2 \<and> length (lru_key_map m) = 2 \<and> capacity m = 2 \<and>
        map_of (lru_key_map m) ''k3'' = Some 3 \<and>
        (\<exists>e. map_of (lru_list m) 3 = Some e \<and> key e = ''k3'') \<and>
        (\<exists>e. (1, e) \<in> set (lru_list m) \<and> map_of (lru_key_map m) (key e) = Some 1) \<and>
        map_of (lru_key_map m) ''k2'' = None"
proof -
  let ?P = "\<lparr>timestamping = TimestampAll, hit_counting = HitCountEnabled\<rparr>"
  let ?calls = "[(1 :: int64_t, CallInsert ''k1'' ''a''), (2, CallInsert ''k2'' ''b''),
                 (3, CallFind ''k1''), (4, CallInsert ''k3'' ''c''), (5, CallErase ''k1'')]"
  have h: "(1::int) \<le> 2" by simp
  from index_and_sequence_consistent[OF h, of ?P 4 ?calls] obtain m
    where m: "construct_and_run ?P 2 (take 4 ?calls) = Inr m"
      "length (lru_list m) = length (lru_key_map m)" "capacity m = 2"
      "\<forall>k it. map_of (lru_key_map m) k = Some it \<longrightarrow>
         (\<exists>e. map_of (lru_list m) it = Some e \<and> key e = k)"
      "\<forall>n \<in> set (lru_list m). map_of (lru_key_map m) (key (snd n)) = Some (fst n)"
    by blast
  have "construct_and_run ?P 2 (take 4 ?calls) =
        Inr \<lparr>capacity = 2,
             lru_stats = \<lparr>num_insert = 3, num_overflow = 1, num_find = 1, num_find_ok = 1,
                          num_erase = 0, num_clear = 0\<rparr>,
             lru_list = [(3, \<lparr>key = ''k3'', val = ''c'', access_time_usecs = 0,
                               modify_time_usecs = 4, hit_count = 0\<rparr>),
                         (1, \<lparr>key = ''k1'', val = ''a'', access_time_usecs = 3,
                               modify_time_usecs = 1, hit_count = 1\<rparr>)],
             lru_key_map = [(''k3'', 3), (''k1'', 1)]\<rparr>"
    by (simp add: call_defs)
  with m(1) have km: "lru_key_map m = [(''k3'', 3), (''k1'', 1)]"
    and l: "(1, \<lparr>key = ''k1'', val = ''a'', access_time_usecs = 3, modify_time_usecs = 1,
                   hit_count = 1\<rparr>) \<in> set (lru_list m)" by auto
  from m(5) l have b: "\<exists>e. (1, e) \<in> set (lru_list m) \<and> map_of (lru_key_map m) (key e) = Some 1"
    by fastforce
  from km have a: "map_of (lru_key_map m) ''k3'' = Some 3" "map_of (lru_key_map m) ''k2'' = None"
    "length (lru_key_map m) = 2" by simp_all
  from m(4) a(1) have "\<exists>e. map_of (lru_list m) 3 = Some e \<and> key e = ''k3''" by blast
  with m(1,2,3) a b show ?thesis by (intro exI[of _ m]) simp
qed

text \<open>
  Claim C2. Distinct keys \<open>k0, k1, ...\<close> are inserted in this order, with nothing else
  called, into a new map of capacity \<open>C \<ge> 1\<close>; there are more than \<open>C + j\<close> of them.
  After the first \<open>C + j\<close> inserts the list holds \<open>k(C+j-1), ..., kj\<close> from front to back,
  so that \<open>kj\<close> is the last one, and \<open>j\<close> overflows have been counted. The next insert,
  the overflow number \<open>j + 1\<close>, returns and leaves the new key in front of the old list
  without its last node: exactly \<open>kj\<close> is gone from the list and gone from the map,
  whose keys are those of the list before and after, and one more overflow is counted.
  The order of eviction is the order of insertion, whatever the keys are.
\<close>

theorem eviction_follows_insertion_order:
  assumes "1 \<le> cap" "distinct (inserted_keys ins)" "nat cap + j < length ins"
  shows "\<exists>m m'.
     construct_and_run P cap (insert_calls (take (nat cap + j) ins)) = Inr m \<and>
     step P (insert_calls ins ! (nat cap + j)) m = Inr m' \<and>
     construct_and_run P cap (insert_calls (take (Suc (nat cap + j)) ins)) = Inr m' \<and>
     keys_of (lru_list m) = rev (drop j (take (nat cap + j) (inserted_keys ins))) \<and>
     last (keys_of (lru_list m)) = inserted_keys ins ! j \<and>
     keys_of (lru_list m') = inserted_keys ins ! (nat cap + j) # butlast (keys_of (lru_list m)) \<and>
     mset (map fst (lru_key_map m)) = mset (keys_of (lru_list m)) \<and>
     mset (map fst (lru_key_map m')) = mset (keys_of (lru_list m')) \<and>
     Exists (inserted_keys ins ! j) m \<and> \<not> Exists (inserted_keys ins ! j) m' \<and>
     num_overflow (lru_stats m) = int j \<and> num_overflow (lru_stats m') = int j + 1"
proof -
  let ?n = "nat cap + j" and ?ks = "inserted_keys ins"
  let ?K = "rev (drop j (take ?n ?ks))"
  have lks: "length ?ks = length ins" by (simp add: inserted_keys_def)
  obtain t k v where x: "ins ! ?n = (t, k, v)" by (cases "ins ! ?n") auto
  with assms(3) have kn: "?ks ! ?n = k" by (simp add: inserted_keys_def)
  from assms(2) have "distinct (inserted_keys (take ?n ins))"
    by (simp add: inserted_keys_take)
  from run_insert_calls[OF assms(1) this, of P] obtain m
    where m: "construct_and_run P cap (insert_calls (take ?n ins)) = Inr m"
      "lru_inv m" "capacity m = cap"
      "keys_of (lru_list m) = take (nat cap) (rev (inserted_keys (take ?n ins)))"
      "lru_stats m = \<lparr>num_insert = int (length (take ?n ins)),
                      num_overflow = max 0 (int (length (take ?n ins)) - cap),
                      num_find = 0, num_find_ok = 0, num_erase = 0, num_clear = 0\<rparr>" by blast
  from assms(3) have ln: "length (take ?n ins) = ?n" by simp
  have K: "keys_of (lru_list m) = ?K"
    using assms(3) lks by (simp add: m(4) inserted_keys_take take_rev)
  have lenK: "length ?K = nat cap" using assms(3) lks by simp
  with assms(1) have neK: "?K \<noteq> []" by auto
  have dK: "distinct ?K" using assms(2) by simp
  have "last ?K = hd (drop j (take ?n ?ks))" by (simp add: last_rev)
  also have "\<dots> = take ?n ?ks ! j" using assms(1,3) lks by (simp add: hd_drop_conv_nth)
  also have "\<dots> = ?ks ! j" using assms(1) by simp
  finally have lastK: "last ?K = ?ks ! j" .
  have "num_overflow (lru_stats m) = max 0 (int (length (take ?n ins)) - cap)"
    by (simp add: m(5) del: length_take)
  then have ov: "num_overflow (lru_stats m) = int j" unfolding ln using assms(1) by simp
  have "k \<notin> set (take ?n ?ks)"
  proof
    assume "k \<in> set (take ?n ?ks)"
    then obtain i where i: "i < ?n" "i < length ?ks" "?ks ! i = k"
      by (auto simp: in_set_conv_nth)
    from i(3) kn have "?ks ! i = ?ks ! ?n" by simp
    with nth_eq_iff_index_eq[OF assms(2), of i ?n] i(2) assms(3) lks have "i = ?n" by simp
    with i(1) show False by simp
  qed
  then have knew: "k \<notin> set (keys_of (lru_list m))" unfolding K by (auto dest: in_set_dropD)
  have full: "int (length (lru_list m)) = capacity m"
  proof -
    have "length (lru_list m) = length (keys_of (lru_list m))" by simp
    also have "\<dots> = nat cap" unfolding K by (rule lenK)
    finally show ?thesis using assms(1) m(3) by simp
  qed
  from Insert_new_key[OF m(2) knew, of P t v] full obtain m'
    where m': "Insert P t k v m = Inr m'" "lru_inv m'"
      "keys_of (lru_list m') = k # butlast (keys_of (lru_list m))"
      "lru_stats m' = (lru_stats m)\<lparr>num_overflow := num_overflow (lru_stats m) + 1,
                                     num_insert := num_insert (lru_stats m) + 1\<rparr>" by auto
  have call: "insert_calls ins ! ?n = (t, CallInsert k v)"
    using assms(3) x by (simp add: insert_calls_def)
  have s: "step P (insert_calls ins ! ?n) m = Inr m'" using m'(1) by (simp add: call)
  have "take (Suc ?n) ins = take ?n ins @ [ins ! ?n]"
    using assms(3) by (simp add: take_Suc_conv_app_nth)
  then have r': "construct_and_run P cap (insert_calls (take (Suc ?n) ins)) = Inr m'"
    using m(1) m'(1) x by (simp add: insert_calls_def construct_and_run_append)
  have ex: "Exists (?ks ! j) m"
    using neK lastK[symmetric] by (simp add: inv_present[OF m(2)] K del: set_rev)
  have "?ks ! j \<noteq> k"
  proof
    assume "?ks ! j = k"
    with kn have "?ks ! j = ?ks ! ?n" by simp
    with nth_eq_iff_index_eq[OF assms(2), of j ?n] assms(3) lks have "j = ?n" by simp
    with assms(1) show False by simp
  qed
  moreover have "?ks ! j \<notin> set (butlast ?K)"
    using last_notin_butlast[OF dK neK] lastK by simp
  ultimately have nex: "\<not> Exists (?ks ! j) m'"
    by (simp add: inv_present[OF m'(2)] m'(3) K)
  from m(1) s r' K lastK m'(3) kn inv_index_keys[OF m(2)] inv_index_keys[OF m'(2)] ex nex ov m'(4)
  show ?thesis by (intro exI[of _ m] exI[of _ m']) simp
qed

theorem eviction_follows_insertion_order_witness:
  "\<exists>m m'.
     construct_and_run \<lparr>timestamping = TimestampNone, hit_counting = HitCountDisabled\<rparr> 2
       (insert_calls [(1, ''k0'', ''a''), (2, ''k1'', ''b''), (3, ''k2'', ''c'')]) = Inr m \<and>
     construct_and_run \<lparr>timestamping = TimestampNone, hit_counting = HitCountDisabled\<rparr> 2
       (insert_calls [(1, ''k0'', ''a''), (2, ''k1'', ''b''), (3, ''k2'', ''c''),
                      (4, ''k3'', ''d'')]) = Inr m' \<and>
     keys_of (lru_list m) = [''k2'', ''k1''] \<and> keys_of (lru_list m') = [''k3'', ''k2''] \<and>
     Exists ''k1'' m \<and> \<not> Exists ''k1'' m' \<and>
     num_overflow (lru_stats m) = 1 \<and> num_overflow (lru_stats m') = 2"
proof -
  let ?P = "\<lparr>timestamping = TimestampNone, hit_counting = HitCountDisabled\<rparr>"
  let ?ins = "[(1 :: int64_t, ''k0'', ''a''), (2, ''k1'', ''b''), (3, ''k2'', ''c''),
               (4, ''k3'', ''d'')]"
  have h1: "(1::int) \<le> 2" by simp
  have h2: "distinct (inserted_keys ?ins)" by (simp add: inserted_keys_def)
  have h3: "nat 2 + 1 < length ?ins" by simp
  from eviction_follows_insertion_order[OF h1 h2 h3, of ?P] obtain m m' where
    "construct_and_run ?P 2 (insert_calls (take (nat 2 + 1) ?ins)) = Inr m"
    "construct_and_run ?P 2 (insert_calls (take (Suc (nat 2 + 1)) ?ins)) = Inr m'"
    "keys_of (lru_list m) = rev (drop 1 (take (nat 2 + 1) (inserted_keys ?ins)))"
    "keys_of (lru_list m') = inserted_keys ?ins ! (nat 2 + 1) # butlast (keys_of (lru_list m))"
    "Exists (inserted_keys ?ins ! 1) m" "\<not> Exists (inserted_keys ?ins ! 1) m'"
    "num_overflow (lru_stats m) = int 1" "num_overflow (lru_stats m') = int 1 + 1"
    by blast
  then show ?thesis
    by (intro exI[of _ m] exI[of _ m']) (simp add: inserted_keys_def)
qed

text \<open>
  Claim C3. For a capacity \<open>C \<ge> 2\<close>: after \<open>C\<close> distinct keys \<open>k0, ..., k(C-1)\<close> are
  inserted in this order into a new map, \<^verbatim>\<open>Find(k0)\<close> is called and one more new key is
  inserted, no call has failed, the list holds the new key, then \<open>k0\<close>, then
  \<open>k(C-1), ..., k2\<close>: \<open>k0\<close> is still in the map, \<open>k1\<close> is not, and one overflow has
  been counted.
\<close>

theorem find_refreshes_recency:
  assumes "2 \<le> cap" "length ins = nat cap" "distinct (inserted_keys ins @ [knew])"
  shows "\<exists>m. construct_and_run P cap
                (insert_calls ins @
                 [(t1, CallFind (inserted_keys ins ! 0)), (t2, CallInsert knew v)]) = Inr m \<and>
           keys_of (lru_list m) = knew # inserted_keys ins ! 0 # rev (drop 2 (inserted_keys ins)) \<and>
           Exists (inserted_keys ins ! 0) m \<and> \<not> Exists (inserted_keys ins ! 1) m \<and>
           num_overflow (lru_stats m) = 1"
proof -
  let ?ks = "inserted_keys ins"
  have lks: "length ?ks = nat cap" using assms(2) by (simp add: inserted_keys_def)
  with assms(1) obtain k0 k1 rest where ks: "?ks = k0 # k1 # rest"
    by (cases ?ks; cases "tl ?ks") auto
  from assms(3) ks have d: "distinct ?ks" and dn: "knew \<notin> set ?ks"
    and d0: "k0 \<noteq> k1" "k0 \<notin> set rest" "k1 \<notin> set rest" "knew \<noteq> k0" "knew \<noteq> k1"
    by auto
  from assms(1) have c1: "1 \<le> cap" by simp
  from run_insert_calls[OF c1 d, of P] obtain ma
    where ma: "construct_and_run P cap (insert_calls ins) = Inr ma" "lru_inv ma"
      "capacity ma = cap" "keys_of (lru_list ma) = take (nat cap) (rev ?ks)"
      "lru_stats ma = \<lparr>num_insert = int (length ins),
                       num_overflow = max 0 (int (length ins) - cap),
                       num_find = 0, num_find_ok = 0, num_erase = 0, num_clear = 0\<rparr>" by blast
  have ka: "keys_of (lru_list ma) = rev rest @ [k1, k0]" using lks by (simp add: ma(4) ks)
  have ova: "num_overflow (lru_stats ma) = 0" using assms(1,2) by (simp add: ma(5))
  have "k0 \<in> set (keys_of (lru_list ma))" by (simp add: ka)
  from Find_present_key[OF ma(2) this, of P t1] obtain r mb
    where mb: "Find P t1 k0 ma = Inr (Some r, mb)" "lru_inv mb" "capacity mb = capacity ma"
      "keys_of (lru_list mb) = k0 # remove1 k0 (keys_of (lru_list ma))"
      "num_overflow (lru_stats mb) = num_overflow (lru_stats ma)" by blast
  have kb: "keys_of (lru_list mb) = k0 # rev rest @ [k1]" using d0 by (simp add: mb(4) ka remove1_append)
  from dn ks have "knew \<notin> set (keys_of (lru_list mb))" by (simp add: kb)
  from Insert_new_key[OF mb(2) this, of P t2 v] obtain mc
    where mc: "Insert P t2 knew v mb = Inr mc" "lru_inv mc"
      "keys_of (lru_list mc) =
         (if int (length (lru_list mb)) = capacity mb
          then knew # butlast (keys_of (lru_list mb)) else knew # keys_of (lru_list mb))"
      "lru_stats mc =
         (if int (length (lru_list mb)) = capacity mb
          then (lru_stats mb)\<lparr>num_overflow := num_overflow (lru_stats mb) + 1,
                               num_insert := num_insert (lru_stats mb) + 1\<rparr>
          else (lru_stats mb)\<lparr>num_insert := num_insert (lru_stats mb) + 1\<rparr>)" by blast
  have "length (lru_list mb) = length (keys_of (lru_list mb))" by simp
  also have "\<dots> = nat cap" using lks ks by (simp add: kb)
  finally have full: "int (length (lru_list mb)) = capacity mb"
    using assms(1) mb(3) ma(3) by simp
  have kc: "keys_of (lru_list mc) = knew # k0 # rev rest"
    using full by (simp add: mc(3) kb butlast_append)
  have ovc: "num_overflow (lru_stats mc) = 1" using full by (simp add: mc(4) mb(5) ova)
  have run: "construct_and_run P cap
                (insert_calls ins @ [(t1, CallFind (?ks ! 0)), (t2, CallInsert knew v)]) = Inr mc"
    using ma(1) mb(1) mc(1) by (simp add: construct_and_run_append ks)
  have e0: "Exists (?ks ! 0) mc" by (simp add: inv_present[OF mc(2)] kc ks)
  have e1: "\<not> Exists (?ks ! 1) mc" using d0 by (simp add: inv_present[OF mc(2)] kc ks)
  from run kc e0 e1 ovc show ?thesis by (intro exI[of _ mc]) (simp add: ks)
qed

theorem find_refreshes_recency_witness:
  "\<exists>m. construct_and_run \<lparr>timestamping = TimestampAll, hit_counting = HitCountEnabled\<rparr> 3
          (insert_calls [(1, ''k0'', ''a''), (2, ''k1'', ''b''), (3, ''k2'', ''c'')] @
           [(4, CallFind ''k0''), (5, CallInsert ''k3'' ''d'')]) = Inr m \<and>
        keys_of (lru_list m) = [''k3'', ''k0'', ''k2''] \<and>
        Exists ''k0'' m \<and> \<not> Exists ''k1'' m \<and> num_overflow (lru_stats m) = 1"
proof -
  let ?P = "\<lparr>timestamping = TimestampAll, hit_counting = HitCountEnabled\<rparr>"
  let ?ins = "[(1 :: int64_t, ''k0'', ''a''), (2, ''k1'', ''b''), (3, ''k2'', ''c'')]"
  have h1: "(2::int) \<le> 3" by simp
  have h2: "length ?ins = nat 3" by simp
  have h3: "distinct (inserted_keys ?ins @ [''k3''])" by (simp add: inserted_keys_def)
  from find_refreshes_recency[OF h1 h2 h3, of ?P 4 5 "''d''"] show ?thesis
    by (simp add: inserted_keys_def)
qed

text \<open>
  Claim C4. In every state \<open>m\<close> that a sequence of calls on a constructed map reaches,
  for every key \<open>k\<close>, value \<open>v\<close> and clock readings: \<^verbatim>\<open>Insert(k, v)\<close> returns, and
  \<^verbatim>\<open>Find(k)\<close> on the state it leaves returns the value \<open>v\<close>; \<^verbatim>\<open>Erase(k)\<close> returns,
  and \<^verbatim>\<open>Find(k)\<close> on the state it leaves returns the null pointer (\<open>None\<close>).
\<close>

theorem insert_find_and_erase_find_round_trip:
  assumes "construct_and_run P cap calls = Inr m"
  shows "(\<exists>m1 m2. Insert P t1 k v m = Inr m1 \<and> Find P t2 k m1 = Inr (Some v, m2)) \<and>
         (\<exists>m1 m2. Erase k m = Inr m1 \<and> Find P t2 k m1 = Inr (None, m2))"
proof -
  from reachable_inv[OF assms] have i: "lru_inv m" by simp
  from Insert_result_front[OF i, of P t1 k v] obtain m1 it e r
    where m1: "Insert P t1 k v m = Inr m1" "lru_inv m1" "lru_list m1 = (it, e) # r"
      "key e = k" "val e = v" by blast
  from Find_front[OF m1(2,3), of P t2] m1(4,5)
  obtain m2 where "Find P t2 k m1 = Inr (Some v, m2)" by auto
  with m1(1) have a: "\<exists>m1 m2. Insert P t1 k v m = Inr m1 \<and> Find P t2 k m1 = Inr (Some v, m2)"
    by blast
  from Erase_absent[OF i, of k] obtain m3
    where m3: "Erase k m = Inr m3" "map_of (lru_key_map m3) k = None" by blast
  from Find_miss[OF m3(2), of P t2] m3(1)
  have b: "\<exists>m1 m2. Erase k m = Inr m1 \<and> Find P t2 k m1 = Inr (None, m2)" by blast
  from a b show ?thesis ..
qed

theorem insert_find_and_erase_find_round_trip_witness:
  "construct_and_run \<lparr>timestamping = TimestampAll, hit_counting = HitCountEnabled\<rparr> 1
     [(1, CallInsert ''k1'' ''a'')] =
   Inr \<lparr>capacity = 1,
        lru_stats = \<lparr>num_insert = 1, num_overflow = 0, num_find = 0, num_find_ok = 0,
                     num_erase = 0, num_clear = 0\<rparr>,
        lru_list = [(1, \<lparr>key = ''k1'', val = ''a'', access_time_usecs = 0,
                          modify_time_usecs = 1, hit_count = 0\<rparr>)],
        lru_key_map = [(''k1'', 1)]\<rparr> \<and>
   (\<exists>m1 m2. Insert \<lparr>timestamping = TimestampAll, hit_counting = HitCountEnabled\<rparr> 2 ''k2'' ''b''
        \<lparr>capacity = 1,
         lru_stats = \<lparr>num_insert = 1, num_overflow = 0, num_find = 0, num_find_ok = 0,
                      num_erase = 0, num_clear = 0\<rparr>,
         lru_list = [(1, \<lparr>key = ''k1'', val = ''a'', access_time_usecs = 0,
                           modify_time_usecs = 1, hit_count = 0\<rparr>)],
         lru_key_map = [(''k1'', 1)]\<rparr> = Inr m1 \<and>
      Find \<lparr>timestamping = TimestampAll, hit_counting = HitCountEnabled\<rparr> 3 ''k2'' m1 =
        Inr (Some ''b'', m2)) \<and>
   (\<exists>m1 m2. Erase ''k2''
        \<lparr>capacity = 1,
         lru_stats = \<lparr>num_insert = 1, num_overflow = 0, num_find = 0, num_find_ok = 0,
                      num_erase = 0, num_clear = 0\<rparr>,
         lru_list = [(1, \<lparr>key = ''k1'', val = ''a'', access_time_usecs = 0,
                           modify_time_usecs = 1, hit_count = 0\<rparr>)],
         lru_key_map = [(''k1'', 1)]\<rparr> = Inr m1 \<and>
      Find \<lparr>timestamping = TimestampAll, hit_counting = HitCountEnabled\<rparr> 3 ''k2'' m1 =
        Inr (None, m2))"
proof -
  let ?P = "\<lparr>timestamping = TimestampAll, hit_counting = HitCountEnabled\<rparr>"
  have r: "construct_and_run ?P 1 [(1, CallInsert ''k1'' ''a'')] =
   Inr \<lparr>capacity = 1,
        lru_stats = \<lparr>num_insert = 1, num_overflow = 0, num_find = 0, num_find_ok = 0,
                     num_erase = 0, num_clear = 0\<rparr>,
        lru_list = [(1, \<lparr>key = ''k1'', val = ''a'', access_time_usecs = 0,
                          modify_time_usecs = 1, hit_count = 0\<rparr>)],
        lru_key_map = [(''k1'', 1)]\<rparr>"
    by (simp add: call_defs)
  from insert_find_and_erase_find_round_trip[OF r, of 2 "''k2''" "''b''" 3] r
  show ?thesis by blast
qed

text \<open>
  Claim C5. In every state \<open>m\<close> that a sequence of calls on a constructed map reaches,
  for a key \<open>k\<close> that is in the map: \<^verbatim>\<open>Insert(k, v2)\<close> returns and leaves \<^verbatim>\<open>Size()\<close>
  as it was, the first node of the list holds \<open>k\<close> with the value \<open>v2\<close>, the other keys
  follow in their old order, the map is unchanged and \<^verbatim>\<open>num_overflow\<close> is unchanged
  (nothing is evicted), and \<^verbatim>\<open>Find(k)\<close> then returns \<open>v2\<close>.
\<close>

theorem insert_existing_key_overwrites:
  assumes "construct_and_run P cap calls = Inr m" "Exists k m"
  shows "\<exists>m1 it e r m2. Insert P t1 k v2 m = Inr m1 \<and>
           Size m = Inr (int (length (lru_list m))) \<and> Size m1 = Size m \<and>
           lru_list m1 = (it, e) # r \<and> key e = k \<and> val e = v2 \<and>
           keys_of (lru_list m1) = k # remove1 k (keys_of (lru_list m)) \<and>
           lru_key_map m1 = lru_key_map m \<and>
           num_overflow (lru_stats m1) = num_overflow (lru_stats m) \<and>
           Find P t2 k m1 = Inr (Some v2, m2)"
proof -
  from reachable_inv[OF assms(1)] have i: "lru_inv m" by simp
  from assms(2) obtain it where s: "map_of (lru_key_map m) k = Some it"
    by (auto simp: Exists_def)
  from inv_unlink[OF i s] obtain e r
    where u: "unlink it (lru_list m) = Some ((it, e), r)" and ke: "key e = k" by blast
  let ?e = "UpdateModifyTimestamp P t1 (e\<lparr>val := v2\<rparr>)"
  let ?m1 = "m\<lparr>lru_list := (it, ?e) # r,
               lru_stats := (lru_stats m)\<lparr>num_insert := num_insert (lru_stats m) + 1\<rparr>\<rparr>"
  have ins: "Insert P t1 k v2 m = Inr ?m1" by (rule Insert_hit[OF i s u ke])
  have i1: "lru_inv ?m1" by (rule inv_relink[OF i u]) simp
  have len: "length (lru_list m) = Suc (length r)" by (rule unlink_length[OF u])
  have sz: "Size m = Inr (int (length (lru_list m)))"
    using inv_length[OF i] by (simp add: Size_def SizePrivate_def)
  have sz1: "Size ?m1 = Size m"
    using inv_length[OF i] len by (simp add: Size_def SizePrivate_def)
  have ks: "keys_of (lru_list ?m1) = k # remove1 k (keys_of (lru_list m))"
    using unlink_keys[OF inv_keys_distinct[OF i] u] ke by simp
  have "lru_list ?m1 = (it, ?e) # r" by simp
  from Find_front[OF i1 this, of P t2] ke obtain m2
    where "Find P t2 k ?m1 = Inr (Some v2, m2)" by auto
  with ins sz sz1 ks ke show ?thesis by (intro exI[of _ ?m1] exI[of _ it] exI[of _ ?e] exI[of _ r] exI[of _ m2]) simp
qed

theorem insert_existing_key_overwrites_witness:
  "construct_and_run \<lparr>timestamping = TimestampAll, hit_counting = HitCountEnabled\<rparr> 2
     [(1, CallInsert ''k1'' ''a''), (2, CallInsert ''k2'' ''b'')] =
   Inr \<lparr>capacity = 2,
        lru_stats = \<lparr>num_insert = 2, num_overflow = 0, num_find = 0, num_find_ok = 0,
                     num_erase = 0, num_clear = 0\<rparr>,
        lru_list = [(2, \<lparr>key = ''k2'', val = ''b'', access_time_usecs = 0,
                          modify_time_usecs = 2, hit_count = 0\<rparr>),
                    (1, \<lparr>key = ''k1'', val = ''a'', access_time_usecs = 0,
                          modify_time_usecs = 1, hit_count = 0\<rparr>)],
        lru_key_map = [(''k2'', 2), (''k1'', 1)]\<rparr> \<and>
   Exists ''k1''
      \<lparr>capacity = 2,
        lru_stats = \<lparr>num_insert = 2, num_overflow = 0, num_find = 0, num_find_ok = 0,
                     num_erase = 0, num_clear = 0\<rparr>,
        lru_list = [(2, \<lparr>key = ''k2'', val = ''b'', access_time_usecs = 0,
                          modify_time_usecs = 2, hit_count = 0\<rparr>),
                    (1, \<lparr>key = ''k1'', val = ''a'', access_time_usecs = 0,
                          modify_time_usecs = 1, hit_count = 0\<rparr>)],
        lru_key_map = [(''k2'', 2), (''k1'', 1)]\<rparr> \<and>
   (\<exists>m1 m2. Insert \<lparr>timestamping = TimestampAll, hit_counting = HitCountEnabled\<rparr> 3 ''k1'' ''z''
      \<lparr>capacity = 2,
        lru_stats = \<lparr>num_insert = 2, num_overflow = 0, num_find = 0, num_find_ok = 0,
                     num_erase = 0, num_clear = 0\<rparr>,
        lru_list = [(2, \<lparr>key = ''k2'', val = ''b'', access_time_usecs = 0,
                          modify_time_usecs = 2, hit_count = 0\<rparr>),
                    (1, \<lparr>key = ''k1'', val = ''a'', access_time_usecs = 0,
                          modify_time_usecs = 1, hit_count = 0\<rparr>)],
        lru_key_map = [(''k2'', 2), (''k1'', 1)]\<rparr> = Inr m1 \<and>
      keys_of (lru_list m1) = [''k1'', ''k2''] \<and>
      Find \<lparr>timestamping = TimestampAll, hit_counting = HitCountEnabled\<rparr> 4 ''k1'' m1 =
        Inr (Some ''z'', m2))"
proof -
  let ?P = "\<lparr>timestamping = TimestampAll, hit_counting = HitCountEnabled\<rparr>"
  let ?m = "\<lparr>capacity = 2,
        lru_stats = \<lparr>num_insert = 2, num_overflow = 0, num_find = 0, num_find_ok = 0,
                     num_erase = 0, num_clear = 0\<rparr>,
        lru_list = [(2, \<lparr>key = ''k2'', val = ''b'', access_time_usecs = 0,
                          modify_time_usecs = 2, hit_count = 0\<rparr>),
                    (1, \<lparr>key = ''k1'', val = ''a'', access_time_usecs = 0,
                          modify_time_usecs = 1, hit_count = 0\<rparr>)],
        lru_key_map = [(''k2'', 2), (''k1'', 1)]\<rparr>"
  have r: "construct_and_run ?P 2 [(1, CallInsert ''k1'' ''a''), (2, CallInsert ''k2'' ''b'')]
             = Inr ?m"
    by (simp add: call_defs)
  have h: "Exists ''k1'' ?m" by (simp add: Exists_def)
  from insert_existing_key_overwrites[OF r h, of 3 "''z''" 4] obtain m1 m2
    where "Insert ?P 3 ''k1'' ''z'' ?m = Inr m1"
      "keys_of (lru_list m1) = ''k1'' # remove1 ''k1'' (keys_of (lru_list ?m))"
      "Find ?P 4 ''k1'' m1 = Inr (Some ''z'', m2)" by blast
  then have "Insert ?P 3 ''k1'' ''z'' ?m = Inr m1 \<and> keys_of (lru_list m1) = [''k1'', ''k2''] \<and>
      Find ?P 4 ''k1'' m1 = Inr (Some ''z'', m2)" by (simp add: keys_of_def)
  with r h show ?thesis by blast
qed

text \<open>
  Claim C6. The clock is the wall clock that \<^verbatim>\<open>MicrosecondsSinceEpoch()\<close> reads: a
  reading is the number of microseconds since the epoch, so none is negative, and the
  readings never decrease from one call to the next. Then after any sequence of calls on
  a map constructed with a capacity of at least 1 no call has failed and \<^verbatim>\<open>Valid()\<close>
  returns true, whatever the policies; under \<^verbatim>\<open>TimestampAll\<close> that is the audit of the
  list, which finds the larger of the access and modify timestamps never increasing from
  front to back. Under \<^verbatim>\<open>TimestampNone\<close> \<^verbatim>\<open>Valid()\<close> returns true in every state.
\<close>

theorem valid_under_non_negative_clock:
  fixes calls :: "(int64_t \<times> ('k, 'v) call) list"
  assumes "1 \<le> cap" "sorted (clock_readings calls)" "\<forall>t \<in> set (clock_readings calls). 0 \<le> t"
  shows "Valid_after P cap calls = Inr True \<and>
         (\<forall>h (m :: ('k, 'v) LruMap).
            Valid \<lparr>timestamping = TimestampNone, hit_counting = h\<rparr> m)"
proof -
  from inv_construct_and_run[OF assms(1), of P calls] obtain m :: "('k, 'v) LruMap"
    where m: "construct_and_run P cap calls = Inr m" by blast
  with assms(1) obtain m0 :: "('k, 'v) LruMap" where m0: "LruMap_ctor cap = Inr m0"
    "run P calls m0 = Inr m" by (auto simp: construct_and_run_def split: sum.splits)
  from m0(1) have i0: "lru_inv m0"
    by (auto simp: LruMap_ctor_def lru_inv_def split: if_splits)
  from m0(1) have e0: "lru_list m0 = []" by (auto simp: LruMap_ctor_def split: if_splits)
  have "Valid P m"
  proof (cases "timestamping P")
    case TimestampNone
    then show ?thesis by (simp add: Valid_def)
  next
    case TimestampAll
    have o0: "timestamps_ordered 0 (lru_list m0)" by (simp add: e0 timestamps_ordered_def)
    have s0: "sorted (0 # clock_readings calls)" using assms(2,3) by simp
    from run_ordered[OF TimestampAll i0 o0 _ s0 m0(2)] obtain T'
      where "timestamps_ordered T' (lru_list m)" by auto
    from ordered_Valid[OF this] TimestampAll show ?thesis by (simp add: Valid_def)
  qed
  with m have "Valid_after P cap calls = Inr True"
    by (simp add: Valid_after_def)
  then show ?thesis by (simp add: Valid_def)
qed

theorem valid_under_non_negative_clock_witness:
  "sorted (clock_readings
     [(1000001, CallInsert ''k0'' ''a''), (1000002, CallInsert ''k1'' ''b''),
      (1000003, CallInsert ''k2'' ''c''), (1000003, CallFind ''k0''),
      (1000005, CallInsert ''k3'' ''d''), (1000006, CallInsert ''k2'' ''e''),
      (1000007, CallErase ''k3'')]) \<and>
   (\<exists>m. construct_and_run \<lparr>timestamping = TimestampAll, hit_counting = HitCountEnabled\<rparr> 3
     [(1000001, CallInsert ''k0'' ''a''), (1000002, CallInsert ''k1'' ''b''),
      (1000003, CallInsert ''k2'' ''c''), (1000003, CallFind ''k0''),
      (1000005, CallInsert ''k3'' ''d''), (1000006, CallInsert ''k2'' ''e''),
      (1000007, CallErase ''k3'')] = Inr m \<and>
      keys_of (lru_list m) = [''k2'', ''k0''] \<and>
      map (\<lambda>n. current_recent_usecs (snd n)) (lru_list m) = [1000006, 1000003]) \<and>
   Valid_after \<lparr>timestamping = TimestampAll, hit_counting = HitCountEnabled\<rparr> 3
     [(1000001, CallInsert ''k0'' ''a''), (1000002, CallInsert ''k1'' ''b''),
      (1000003, CallInsert ''k2'' ''c''), (1000003, CallFind ''k0''),
      (1000005, CallInsert ''k3'' ''d''), (1000006, CallInsert ''k2'' ''e''),
      (1000007, CallErase ''k3'')] = Inr True"
proof -
  let ?P = "\<lparr>timestamping = TimestampAll, hit_counting = HitCountEnabled\<rparr>"
  let ?calls = "[(1000001 :: int64_t, CallInsert ''k0'' ''a''), (1000002, CallInsert ''k1'' ''b''),
      (1000003, CallInsert ''k2'' ''c''), (1000003, CallFind ''k0''),
      (1000005, CallInsert ''k3'' ''d''), (1000006, CallInsert ''k2'' ''e''),
      (1000007, CallErase ''k3'')]"
  have h1: "(1::int) \<le> 3" by simp
  have h2: "sorted (clock_readings ?calls)" by (simp add: clock_readings_def)
  have h3: "\<forall>t \<in> set (clock_readings ?calls). 0 \<le> t" by (simp add: clock_readings_def)
  have r: "\<exists>m. construct_and_run ?P 3 ?calls = Inr m \<and>
      keys_of (lru_list m) = [''k2'', ''k0''] \<and>
      map (\<lambda>n. current_recent_usecs (snd n)) (lru_list m) = [1000006, 1000003]"
    by (simp add: call_defs keys_of_def current_recent_usecs_def)
  from valid_under_non_negative_clock[OF h1 h2 h3, of ?P] h2 r
  show ?thesis by simp
qed

text \<open>
  Claim C7. For a key that is not in the map (\<^verbatim>\<open>Exists\<close> is false), in every state,
  reachable or not: \<^verbatim>\<open>Find\<close> fails no check, returns the null pointer and leaves the
  state as it was but for \<^verbatim>\<open>num_find\<close>, which is one more (so \<^verbatim>\<open>num_find_ok\<close>, the
  list and the map are unchanged); \<^verbatim>\<open>Erase\<close> fails no check and leaves the state as it
  was but for \<^verbatim>\<open>num_erase\<close>, which is one more.
\<close>

theorem absent_key_find_erase:
  assumes "\<not> Exists k m"
  shows "Find P now k m =
           Inr (None, m\<lparr>lru_stats := (lru_stats m)\<lparr>num_find := num_find (lru_stats m) + 1\<rparr>\<rparr>) \<and>
         Erase k m =
           Inr (m\<lparr>lru_stats := (lru_stats m)\<lparr>num_erase := num_erase (lru_stats m) + 1\<rparr>\<rparr>)"
proof -
  from assms have "map_of (lru_key_map m) k = None" by (simp add: Exists_def)
  then show ?thesis using Find_miss[of m k P now] Erase_miss[of m k] by simp
qed

theorem absent_key_find_erase_witness:
  "\<not> Exists ''k7''
      \<lparr>capacity = 1,
        lru_stats = \<lparr>num_insert = 1, num_overflow = 0, num_find = 0, num_find_ok = 0,
                     num_erase = 0, num_clear = 0\<rparr>,
        lru_list = [(1, \<lparr>key = ''k1'', val = ''a'', access_time_usecs = 0,
                          modify_time_usecs = 1, hit_count = 0\<rparr>)],
        lru_key_map = [(''k1'', 1)]\<rparr> \<and>
   Find \<lparr>timestamping = TimestampAll, hit_counting = HitCountEnabled\<rparr> 5 ''k7''
      \<lparr>capacity = 1,
        lru_stats = \<lparr>num_insert = 1, num_overflow = 0, num_find = 0, num_find_ok = 0,
                     num_erase = 0, num_clear = 0\<rparr>,
        lru_list = [(1, \<lparr>key = ''k1'', val = ''a'', access_time_usecs = 0,
                          modify_time_usecs = 1, hit_count = 0\<rparr>)],
        lru_key_map = [(''k1'', 1)]\<rparr> =
   Inr (None,
      \<lparr>capacity = 1,
        lru_stats = \<lparr>num_insert = 1, num_overflow = 0, num_find = 1, num_find_ok = 0,
                     num_erase = 0, num_clear = 0\<rparr>,
        lru_list = [(1, \<lparr>key = ''k1'', val = ''a'', access_time_usecs = 0,
                          modify_time_usecs = 1, hit_count = 0\<rparr>)],
        lru_key_map = [(''k1'', 1)]\<rparr>) \<and>
   Erase ''k7''
      \<lparr>capacity = 1,
        lru_stats = \<lparr>num_insert = 1, num_overflow = 0, num_find = 0, num_find_ok = 0,
                     num_erase = 0, num_clear = 0\<rparr>,
        lru_list = [(1, \<lparr>key = ''k1'', val = ''a'', access_time_usecs = 0,
                          modify_time_usecs = 1, hit_count = 0\<rparr>)],
        lru_key_map = [(''k1'', 1)]\<rparr> =
   Inr \<lparr>capacity = 1,
        lru_stats = \<lparr>num_insert = 1, num_overflow = 0, num_find = 0, num_find_ok = 0,
                     num_erase = 1, num_clear = 0\<rparr>,
        lru_list = [(1, \<lparr>key = ''k1'', val = ''a'', access_time_usecs = 0,
                          modify_time_usecs = 1, hit_count = 0\<rparr>)],
        lru_key_map = [(''k1'', 1)]\<rparr>"
proof -
  let ?m = "\<lparr>capacity = 1,
        lru_stats = \<lparr>num_insert = 1, num_overflow = 0, num_find = 0, num_find_ok = 0,
                     num_erase = 0, num_clear = 0\<rparr>,
        lru_list = [(1, \<lparr>key = ''k1'', val = ''a'', access_time_usecs = 0,
                          modify_time_usecs = 1, hit_count = 0\<rparr>)],
        lru_key_map = [(''k1'', 1)]\<rparr>"
  have h: "\<not> Exists ''k7'' ?m" by (simp add: Exists_def)
  from absent_key_find_erase
    [OF h, of "\<lparr>timestamping = TimestampAll, hit_counting = HitCountEnabled\<rparr>" 5] h
  show ?thesis by simp
qed

text \<open>
  Claim C8. Eight distinct keys are inserted into a new map of capacity 4: no call
  fails, \<^verbatim>\<open>num_insert\<close> is 8 and \<^verbatim>\<open>num_overflow\<close> is 4. Then any three calls of
  \<^verbatim>\<open>Find\<close> return; each of them hits exactly when its key is one of the last four
  inserted; after them \<^verbatim>\<open>num_find\<close> is 3 and \<^verbatim>\<open>num_find_ok\<close> is the number of hits
  (2 when two hit and one misses), the other counters being as they were. Then
  \<^verbatim>\<open>Clear()\<close> leaves \<^verbatim>\<open>Size()\<close> 0 and the counters as they were but for
  \<^verbatim>\<open>num_clear\<close>, which is one more.
\<close>

theorem stats_accuracy_capacity_4:
  assumes "distinct (inserted_keys ins)" "length ins = 8"
  shows "\<exists>m8. construct_and_run P 4 (insert_calls ins) = Inr m8 \<and>
           num_insert (lru_stats m8) = 8 \<and> num_overflow (lru_stats m8) = 4 \<and>
           (\<forall>t1 f1 t2 f2 t3 f3. \<exists>r1 m9 r2 m10 r3 m11.
              Find P t1 f1 m8 = Inr (r1, m9) \<and> Find P t2 f2 m9 = Inr (r2, m10) \<and>
              Find P t3 f3 m10 = Inr (r3, m11) \<and>
              (r1 \<noteq> None) = (f1 \<in> set (drop 4 (inserted_keys ins))) \<and>
              (r2 \<noteq> None) = (f2 \<in> set (drop 4 (inserted_keys ins))) \<and>
              (r3 \<noteq> None) = (f3 \<in> set (drop 4 (inserted_keys ins))) \<and>
              lru_stats m11 =
                \<lparr>num_insert = 8, num_overflow = 4, num_find = 3,
                 num_find_ok = int (length (filter (\<lambda>r. r \<noteq> None) [r1, r2, r3])),
                 num_erase = 0, num_clear = 0\<rparr> \<and>
              Size (Clear m11) = Inr 0 \<and>
              lru_stats (Clear m11) =
                (lru_stats m11)\<lparr>num_clear := num_clear (lru_stats m11) + 1\<rparr>)"
proof -
  have c: "(1::int) \<le> 4" by simp
  from run_insert_calls[OF c assms(1), of P] obtain m8
    where m8: "construct_and_run P 4 (insert_calls ins) = Inr m8" "lru_inv m8"
      "keys_of (lru_list m8) = take (nat 4) (rev (inserted_keys ins))"
      "lru_stats m8 = \<lparr>num_insert = int (length ins),
                       num_overflow = max 0 (int (length ins) - 4),
                       num_find = 0, num_find_ok = 0, num_erase = 0, num_clear = 0\<rparr>" by blast
  have st8: "lru_stats m8 = \<lparr>num_insert = 8, num_overflow = 4, num_find = 0, num_find_ok = 0,
                              num_erase = 0, num_clear = 0\<rparr>"
    by (simp add: m8(4) assms(2))
  have "length (inserted_keys ins) = 8" using assms(2) by (simp add: inserted_keys_def)
  then have k8: "set (keys_of (lru_list m8)) = set (drop 4 (inserted_keys ins))"
    by (simp add: m8(3) take_rev)
  have "\<exists>r1 m9 r2 m10 r3 m11.
              Find P t1 f1 m8 = Inr (r1, m9) \<and> Find P t2 f2 m9 = Inr (r2, m10) \<and>
              Find P t3 f3 m10 = Inr (r3, m11) \<and>
              (r1 \<noteq> None) = (f1 \<in> set (drop 4 (inserted_keys ins))) \<and>
              (r2 \<noteq> None) = (f2 \<in> set (drop 4 (inserted_keys ins))) \<and>
              (r3 \<noteq> None) = (f3 \<in> set (drop 4 (inserted_keys ins))) \<and>
              lru_stats m11 =
                \<lparr>num_insert = 8, num_overflow = 4, num_find = 3,
                 num_find_ok = int (length (filter (\<lambda>r. r \<noteq> None) [r1, r2, r3])),
                 num_erase = 0, num_clear = 0\<rparr> \<and>
              Size (Clear m11) = Inr 0 \<and>
              lru_stats (Clear m11) =
                (lru_stats m11)\<lparr>num_clear := num_clear (lru_stats m11) + 1\<rparr>"
    for t1 f1 t2 f2 t3 f3
  proof -
    from Find_result[OF m8(2), of P t1 f1] obtain r1 m9
      where m9: "Find P t1 f1 m8 = Inr (r1, m9)" "lru_inv m9"
        "(r1 \<noteq> None) = (f1 \<in> set (keys_of (lru_list m8)))"
        "set (keys_of (lru_list m9)) = set (keys_of (lru_list m8))"
        "lru_stats m9 =
             (if r1 = None then (lru_stats m8)\<lparr>num_find := num_find (lru_stats m8) + 1\<rparr>
              else (lru_stats m8)\<lparr>num_find := num_find (lru_stats m8) + 1,
                                  num_find_ok := num_find_ok (lru_stats m8) + 1\<rparr>)" by blast
    from Find_result[OF m9(2), of P t2 f2] obtain r2 m10
      where m10: "Find P t2 f2 m9 = Inr (r2, m10)" "lru_inv m10"
        "(r2 \<noteq> None) = (f2 \<in> set (keys_of (lru_list m9)))"
        "set (keys_of (lru_list m10)) = set (keys_of (lru_list m9))"
        "lru_stats m10 =
             (if r2 = None then (lru_stats m9)\<lparr>num_find := num_find (lru_stats m9) + 1\<rparr>
              else (lru_stats m9)\<lparr>num_find := num_find (lru_stats m9) + 1,
                                  num_find_ok := num_find_ok (lru_stats m9) + 1\<rparr>)" by blast
    from Find_result[OF m10(2), of P t3 f3] obtain r3 m11
      where m11: "Find P t3 f3 m10 = Inr (r3, m11)" "lru_inv m11"
        "(r3 \<noteq> None) = (f3 \<in> set (keys_of (lru_list m10)))"
        "set (keys_of (lru_list m11)) = set (keys_of (lru_list m10))"
        "lru_stats m11 =
             (if r3 = None then (lru_stats m10)\<lparr>num_find := num_find (lru_stats m10) + 1\<rparr>
              else (lru_stats m10)\<lparr>num_find := num_find (lru_stats m10) + 1,
                                   num_find_ok := num_find_ok (lru_stats m10) + 1\<rparr>)" by blast
    have st: "lru_stats m11 =
                \<lparr>num_insert = 8, num_overflow = 4, num_find = 3,
                 num_find_ok = int (length (filter (\<lambda>r. r \<noteq> None) [r1, r2, r3])),
                 num_erase = 0, num_clear = 0\<rparr>"
      by (simp add: m11(5) m10(5) m9(5) st8)
    have cl: "Size (Clear m11) = Inr 0 \<and>
              lru_stats (Clear m11) = (lru_stats m11)\<lparr>num_clear := num_clear (lru_stats m11) + 1\<rparr>"
      by (simp add: Size_def SizePrivate_def Clear_def)
    from m9(1,3) m10(1,3) m11(1,3) m9(4) m10(4) k8 st cl show ?thesis
      by (intro exI[of _ r1] exI[of _ m9] exI[of _ r2] exI[of _ m10] exI[of _ r3] exI[of _ m11])
         simp
  qed
  with m8(1) st8 show ?thesis by (intro exI[of _ m8]) simp
qed

theorem stats_accuracy_capacity_4_witness:
  "\<exists>m8 r1 m9 r2 m10 r3 m11.
     construct_and_run \<lparr>timestamping = TimestampAll, hit_counting = HitCountEnabled\<rparr> 4
       (insert_calls [(1, ''k0'', ''a''), (2, ''k1'', ''b''), (3, ''k2'', ''c''),
                      (4, ''k3'', ''d''), (5, ''k4'', ''e''), (6, ''k5'', ''f''),
                      (7, ''k6'', ''g''), (8, ''k7'', ''h'')]) = Inr m8 \<and>
     num_insert (lru_stats m8) = 8 \<and> num_overflow (lru_stats m8) = 4 \<and>
     Find \<lparr>timestamping = TimestampAll, hit_counting = HitCountEnabled\<rparr> 9 ''k7'' m8 = Inr (r1, m9) \<and>
     Find \<lparr>timestamping = TimestampAll, hit_counting = HitCountEnabled\<rparr> 10 ''k0'' m9 = Inr (r2, m10) \<and>
     Find \<lparr>timestamping = TimestampAll, hit_counting = HitCountEnabled\<rparr> 11 ''k4'' m10 = Inr (r3, m11) \<and>
     r1 \<noteq> None \<and> r2 = None \<and> r3 \<noteq> None \<and>
     lru_stats m11 = \<lparr>num_insert = 8, num_overflow = 4, num_find = 3, num_find_ok = 2,
                      num_erase = 0, num_clear = 0\<rparr> \<and>
     Size (Clear m11) = Inr 0 \<and>
     lru_stats (Clear m11) = \<lparr>num_insert = 8, num_overflow = 4, num_find = 3, num_find_ok = 2,
                              num_erase = 0, num_clear = 1\<rparr>"
proof -
  let ?P = "\<lparr>timestamping = TimestampAll, hit_counting = HitCountEnabled\<rparr>"
  let ?ins = "[(1 :: int64_t, ''k0'', ''a''), (2, ''k1'', ''b''), (3, ''k2'', ''c''),
               (4, ''k3'', ''d''), (5, ''k4'', ''e''), (6, ''k5'', ''f''),
               (7, ''k6'', ''g''), (8, ''k7'', ''h'')]"
  have h1: "distinct (inserted_keys ?ins)" by (simp add: inserted_keys_def)
  have h2: "length ?ins = 8" by simp
  from stats_accuracy_capacity_4[OF h1 h2, of ?P] obtain m8
    where m8: "construct_and_run ?P 4 (insert_calls ?ins) = Inr m8"
      "num_insert (lru_stats m8) = 8" "num_overflow (lru_stats m8) = 4"
      and finds: "\<forall>t1 f1 t2 f2 t3 f3. \<exists>r1 m9 r2 m10 r3 m11.
              Find ?P t1 f1 m8 = Inr (r1, m9) \<and> Find ?P t2 f2 m9 = Inr (r2, m10) \<and>
              Find ?P t3 f3 m10 = Inr (r3, m11) \<and>
              (r1 \<noteq> None) = (f1 \<in> set (drop 4 (inserted_keys ?ins))) \<and>
              (r2 \<noteq> None) = (f2 \<in> set (drop 4 (inserted_keys ?ins))) \<and>
              (r3 \<noteq> None) = (f3 \<in> set (drop 4 (inserted_keys ?ins))) \<and>
              lru_stats m11 =
                \<lparr>num_insert = 8, num_overflow = 4, num_find = 3,
                 num_find_ok = int (length (filter (\<lambda>r. r \<noteq> None) [r1, r2, r3])),
                 num_erase = 0, num_clear = 0\<rparr> \<and>
              Size (Clear m11) = Inr 0 \<and>
              lru_stats (Clear m11) =
                (lru_stats m11)\<lparr>num_clear := num_clear (lru_stats m11) + 1\<rparr>"
    by blast
  from finds[rule_format, of 9 "''k7''" 10 "''k0''" 11 "''k4''"] obtain r1 m9 r2 m10 r3 m11
    where f: "Find ?P 9 ''k7'' m8 = Inr (r1, m9)" "Find ?P 10 ''k0'' m9 = Inr (r2, m10)"
      "Find ?P 11 ''k4'' m10 = Inr (r3, m11)"
      "(r1 \<noteq> None) = (''k7'' \<in> set (drop 4 (inserted_keys ?ins)))"
      "(r2 \<noteq> None) = (''k0'' \<in> set (drop 4 (inserted_keys ?ins)))"
      "(r3 \<noteq> None) = (''k4'' \<in> set (drop 4 (inserted_keys ?ins)))"
      "lru_stats m11 =
                \<lparr>num_insert = 8, num_overflow = 4, num_find = 3,
                 num_find_ok = int (length (filter (\<lambda>r. r \<noteq> None) [r1, r2, r3])),
                 num_erase = 0, num_clear = 0\<rparr>"
      "Size (Clear m11) = Inr 0"
      "lru_stats (Clear m11) = (lru_stats m11)\<lparr>num_clear := num_clear (lru_stats m11) + 1\<rparr>"
    by blast
  from f(4,5,6) have r: "r1 \<noteq> None" "r2 = None" "r3 \<noteq> None"
    by (simp_all add: inserted_keys_def)
  with f(7) have st: "lru_stats m11 =
      \<lparr>num_insert = 8, num_overflow = 4, num_find = 3, num_find_ok = 2,
       num_erase = 0, num_clear = 0\<rparr>" by simp
  with f(9) have "lru_stats (Clear m11) =
      \<lparr>num_insert = 8, num_overflow = 4, num_find = 3, num_find_ok = 2,
       num_erase = 0, num_clear = 1\<rparr>" by simp
  with m8 f(1,2,3,8) r st show ?thesis by blast
qed

text \<open>
  Claim C9. In every state \<open>m\<close> that a sequence of calls on a constructed map reaches,
  when the map has the key \<open>k\<close> with the iterator \<open>it\<close> and \<open>e\<close> is the entry of the node
  at \<open>it\<close>: \<^verbatim>\<open>Insert(k, v)\<close> returns, and the list then starts with the node at the same
  address \<open>it\<close>, whose entry is \<open>e\<close> with the value \<open>v\<close> and, under \<^verbatim>\<open>TimestampAll\<close>,
  the modify timestamp \<open>now\<close>: the key, the access timestamp and the hit counter are
  those of \<open>e\<close>. The other nodes follow unchanged in their old order, the map is
  unchanged, and of the counters only \<^verbatim>\<open>num_insert\<close> changes.
\<close>

theorem insert_existing_key_in_place:
  assumes "construct_and_run P cap calls = Inr m"
    "map_of (lru_key_map m) k = Some it" "map_of (lru_list m) it = Some e"
  shows "Insert P now k v m =
     Inr (m\<lparr>lru_list :=
              (it, e\<lparr>val := v,
                     modify_time_usecs :=
                       (case timestamping P of
                          TimestampNone \<Rightarrow> modify_time_usecs e
                        | TimestampAll \<Rightarrow> now)\<rparr>)
              # filter (\<lambda>n. fst n \<noteq> it) (lru_list m),
            lru_stats := (lru_stats m)\<lparr>num_insert := num_insert (lru_stats m) + 1\<rparr>\<rparr>)"
proof -
  from reachable_inv[OF assms(1)] have i: "lru_inv m" by simp
  then have d: "distinct (map fst (lru_list m))" by (simp add: lru_inv_def)
  from inv_unlink[OF i assms(2)] obtain e' r
    where u: "unlink it (lru_list m) = Some ((it, e'), r)" and ke: "key e' = k" by blast
  from unlink_Some[OF u] have "(it, e') \<in># mset (lru_list m)" by simp
  then have "(it, e') \<in> set (lru_list m)" by simp
  with d have "map_of (lru_list m) it = Some e'" by simp
  with assms(3) have ee: "e' = e" by simp
  from unlink_filter[OF d u] have r: "r = filter (\<lambda>n. fst n \<noteq> it) (lru_list m)" .
  have "UpdateModifyTimestamp P now (e\<lparr>val := v\<rparr>) =
        e\<lparr>val := v, modify_time_usecs :=
              (case timestamping P of TimestampNone \<Rightarrow> modify_time_usecs e | TimestampAll \<Rightarrow> now)\<rparr>"
    by (simp add: UpdateModifyTimestamp_def split: TimestampingPolicy.splits)
  with Insert_hit[OF i assms(2) u ke, of P now v] ee r show ?thesis by simp
qed

theorem insert_existing_key_in_place_witness:
  "construct_and_run \<lparr>timestamping = TimestampAll, hit_counting = HitCountEnabled\<rparr> 2
     [(1, CallInsert ''k1'' ''a''), (2, CallInsert ''k2'' ''b''), (3, CallFind ''k1''),
      (4, CallFind ''k2'')] =
   Inr \<lparr>capacity = 2,
        lru_stats = \<lparr>num_insert = 2, num_overflow = 0, num_find = 2, num_find_ok = 2,
                     num_erase = 0, num_clear = 0\<rparr>,
        lru_list = [(2, \<lparr>key = ''k2'', val = ''b'', access_time_usecs = 4,
                          modify_time_usecs = 2, hit_count = 1\<rparr>),
                    (1, \<lparr>key = ''k1'', val = ''a'', access_time_usecs = 3,
                          modify_time_usecs = 1, hit_count = 1\<rparr>)],
        lru_key_map = [(''k2'', 2), (''k1'', 1)]\<rparr> \<and>
   Insert \<lparr>timestamping = TimestampAll, hit_counting = HitCountEnabled\<rparr> 5 ''k1'' ''z''
      \<lparr>capacity = 2,
        lru_stats = \<lparr>num_insert = 2, num_overflow = 0, num_find = 2, num_find_ok = 2,
                     num_erase = 0, num_clear = 0\<rparr>,
        lru_list = [(2, \<lparr>key = ''k2'', val = ''b'', access_time_usecs = 4,
                          modify_time_usecs = 2, hit_count = 1\<rparr>),
                    (1, \<lparr>key = ''k1'', val = ''a'', access_time_usecs = 3,
                          modify_time_usecs = 1, hit_count = 1\<rparr>)],
        lru_key_map = [(''k2'', 2), (''k1'', 1)]\<rparr> =
   Inr \<lparr>capacity = 2,
        lru_stats = \<lparr>num_insert = 3, num_overflow = 0, num_find = 2, num_find_ok = 2,
                     num_erase = 0, num_clear = 0\<rparr>,
        lru_list = [(1, \<lparr>key = ''k1'', val = ''z'', access_time_usecs = 3,
                          modify_time_usecs = 5, hit_count = 1\<rparr>),
                    (2, \<lparr>key = ''k2'', val = ''b'', access_time_usecs = 4,
                          modify_time_usecs = 2, hit_count = 1\<rparr>)],
        lru_key_map = [(''k2'', 2), (''k1'', 1)]\<rparr>"
proof -
  let ?P = "\<lparr>timestamping = TimestampAll, hit_counting = HitCountEnabled\<rparr>"
  let ?e = "\<lparr>key = ''k1'', val = ''a'', access_time_usecs = 3,
                          modify_time_usecs = 1, hit_count = 1\<rparr>"
  let ?m = "\<lparr>capacity = 2,
        lru_stats = \<lparr>num_insert = 2, num_overflow = 0, num_find = 2, num_find_ok = 2,
                     num_erase = 0, num_clear = 0\<rparr>,
        lru_list = [(2, \<lparr>key = ''k2'', val = ''b'', access_time_usecs = 4,
                          modify_time_usecs = 2, hit_count = 1\<rparr>),
                    (1, ?e)],
        lru_key_map = [(''k2'', 2), (''k1'', 1)]\<rparr>"
  have r: "construct_and_run ?P 2
     [(1, CallInsert ''k1'' ''a''), (2, CallInsert ''k2'' ''b''), (3, CallFind ''k1''),
      (4, CallFind ''k2'')] = Inr ?m"
    by (simp add: call_defs)
  have h1: "map_of (lru_key_map ?m) ''k1'' = Some 1" by simp
  have h2: "map_of (lru_list ?m) 1 = Some ?e" by simp
  from insert_existing_key_in_place[OF r h1 h2, of 5 "''z''"] r show ?thesis by simp
qed

text \<open>
  Claim C10. After any sequence of calls on a map constructed with a capacity of at
  least 1, \<open>0 \<le> num_find_ok \<le> num_find\<close> and \<open>0 \<le> num_overflow \<le> num_insert\<close>, and
  every further call returns and leaves none of the six counters smaller than it was.
\<close>

theorem counters_bounded_and_monotone:
  assumes "1 \<le> cap"
  shows "\<exists>m. construct_and_run P cap calls = Inr m \<and>
           0 \<le> num_find_ok (lru_stats m) \<and> num_find_ok (lru_stats m) \<le> num_find (lru_stats m) \<and>
           0 \<le> num_overflow (lru_stats m) \<and>
           num_overflow (lru_stats m) \<le> num_insert (lru_stats m) \<and>
           (\<forall>c. \<exists>m'. step P c m = Inr m' \<and> counters_le (lru_stats m) (lru_stats m'))"
proof -
  from inv_construct_and_run[OF assms, of P calls] obtain m :: "('a, 'b) LruMap"
    where m: "construct_and_run P cap calls = Inr m" "lru_inv m" by blast
  from m(1) assms obtain m0 :: "('a, 'b) LruMap" where m0: "LruMap_ctor cap = Inr m0" "run P calls m0 = Inr m"
    by (auto simp: construct_and_run_def split: sum.splits)
  from m0(1) have "counters_ok (lru_stats m0)"
    by (auto simp: LruMap_ctor_def counters_ok_def split: if_splits)
  from run_counters[OF m0(2) this] have ok: "counters_ok (lru_stats m)" .
  have "\<exists>m'. step P c m = Inr m' \<and> counters_le (lru_stats m) (lru_stats m')" for c
  proof -
    from inv_step[OF m(2), of P c] obtain m' where "step P c m = Inr m'" by blast
    with step_counters[OF this] show ?thesis by blast
  qed
  with m(1) ok show ?thesis unfolding counters_ok_def by blast
qed

theorem counters_bounded_and_monotone_witness:
  "\<exists>m. construct_and_run \<lparr>timestamping = TimestampAll, hit_counting = HitCountEnabled\<rparr> 1
          [(1, CallInsert ''k1'' ''a''), (2, CallInsert ''k2'' ''b''), (3, CallFind ''k2'')] = Inr m \<and>
           0 \<le> num_find_ok (lru_stats m) \<and> num_find_ok (lru_stats m) \<le> num_find (lru_stats m) \<and>
           0 \<le> num_overflow (lru_stats m) \<and>
           num_overflow (lru_stats m) \<le> num_insert (lru_stats m) \<and>
           (\<forall>c. \<exists>m'. step \<lparr>timestamping = TimestampAll, hit_counting = HitCountEnabled\<rparr> c m
                        = Inr m' \<and> counters_le (lru_stats m) (lru_stats m'))"
  using counters_bounded_and_monotone
    [of 1 "\<lparr>timestamping = TimestampAll, hit_counting = HitCountEnabled\<rparr>"
        "[(1, CallInsert ''k1'' ''a''), (2, CallInsert ''k2'' ''b''), (3, CallFind ''k2'')]"]
  by simp

end
